theory Spec2Isabelle
  imports Main "HOL-Library.AList"
begin

section \<open>Alarm-confirmation rendezvous of the notifications controller\<close>

text \<open>
  A shallow embedding of the notifications controller (routes \<open>/notify\<close>, \<open>/confirm\<close> and
  \<open>/response\<close>): the fan-out loops, the time formatting of the prompt, the process-wide
  \<open>alarmMap\<close> and the two handlers that meet on it. Node runs the handlers on one thread, so
  a handler is atomic between two of its \<open>await\<close>s; \<open>confirmAlarm\<close> touches \<open>alarmMap\<close> only
  after its last push and after its timer, \<open>logResponse\<close> only after its user lookup. The
  model therefore has one function for each such atomic stretch.
\<close>

subsection \<open>Rendering numbers and times\<close>

text \<open>
  The decimal digits of a natural number. The hours, minutes and seconds of a date are
  below 60 and are printed so.
\<close>

definition digit_char :: "nat \<Rightarrow> char" where
  "digit_char d = ''0123456789'' ! d"

fun nat_str :: "nat \<Rightarrow> string" where
  "nat_str n = (if n < 10 then [digit_char n] else nat_str (n div 10) @ [digit_char (n mod 10)])"

declare nat_str.simps [simp del]

text \<open>
  The decimal digits of an integer, after a minus sign if it is negative. A template literal
  prints a number so when the number is an integer below \<open>2^53\<close> in absolute value.
\<close>

definition int_str :: "int \<Rightarrow> string" where
  "int_str i = (if i < 0 then CHR ''-'' # nat_str (nat (- i)) else nat_str (nat i))"

text \<open>
  \<open>timestamp\<close> reaches \<open>confirmAlarm\<close> as a JavaScript number: the request validator has
  coerced the integer of the query to the nearest double. Beyond \<open>2^53\<close> several integers
  arrive as one number (\<open>9007199254740993\<close> as \<open>9007199254740992\<close>), and from \<open>1e21\<close> on a
  template literal prints a number in exponent notation (\<open>1e+21\<close>). What \<open>`${n}`\<close> prints for
  the integer \<open>n\<close> of the query, or of a database column, is therefore a parameter \<open>lit\<close> of
  the handler, of the type below, and nothing is assumed of it: it need not be injective.
  On an integer below \<open>2^53\<close> in absolute value it is \<open>int_str\<close>, and the examples, whose
  numbers are all in that range, run with \<open>int_str\<close>.

  \<open>unixToDate\<close> below is given the same number. Its result is the same for the integer of
  the query: the two agree where the milliseconds are a valid date, and where they differ
  both are invalid dates.
\<close>

type_synonym literal = "int \<Rightarrow> string"

text \<open>\<open>s.substring(start)\<close>: a negative start counts as 0, a start past the end gives \<open>""\<close>.\<close>

definition substring :: "int \<Rightarrow> string \<Rightarrow> string" where
  "substring start s = drop (nat start) s"

text \<open>
  \<open>new Date(ms)\<close> is an invalid date outside \<open>\<plusminus>8.64e15\<close> milliseconds, and its getters then
  return \<open>NaN\<close>. The getters read local time; \<open>tz\<close> is the local offset from UTC in seconds
  that is in force at that instant.
\<close>

definition date_valid :: "int \<Rightarrow> bool" where
  "date_valid ms = (\<bar>ms\<bar> \<le> 8640000000000000)"

definition getHours :: "int \<Rightarrow> int \<Rightarrow> nat" where
  "getHours tz ms = nat (((ms div 1000 + tz) div 3600) mod 24)"

definition getMinutes :: "int \<Rightarrow> int \<Rightarrow> nat" where
  "getMinutes tz ms = nat (((ms div 1000 + tz) div 60) mod 60)"

definition getSeconds :: "int \<Rightarrow> int \<Rightarrow> nat" where
  "getSeconds tz ms = nat ((ms div 1000 + tz) mod 60)"

text \<open>
  \<open>unixToDate\<close>, line by line. On an invalid date every part is the string \<open>NaN\<close>, of length
  3, so neither padding branch is taken.
\<close>

definition unixToDate :: "int \<Rightarrow> int \<Rightarrow> string" where
  "unixToDate tz unix_timestamp =
     (let date = unix_timestamp * 1000 in
      if \<not> date_valid date then ''NaN'' @ '':'' @ substring (- 2) ''NaN'' @ '':'' @ substring (- 2) ''NaN''
      else
        let hours = getHours tz date;
            minutes0 = nat_str (getMinutes tz date);
            seconds0 = nat_str (getSeconds tz date);
            minutes = (if length minutes0 = 1 then ''0'' @ minutes0 else minutes0);
            seconds = (if length seconds0 = 1 then ''0'' @ minutes else seconds0)
        in nat_str hours @ '':'' @ substring (- 2) minutes @ '':'' @ substring (- 2) seconds)"

text \<open>What zero-padding the seconds themselves would have printed; for comparison only.\<close>

definition pad2 :: "nat \<Rightarrow> string" where
  "pad2 n = (if length (nat_str n) = 1 then ''0'' @ nat_str n else nat_str n)"

subsection \<open>The data store\<close>

record alarm =
  alarm_id :: int
  alarmSerial :: string
  alarm_userId :: "int option"
  alarm_location :: string

record subscription =
  sub_userId :: int
  sub_endpoint :: string
  sub_expirationTime :: "int option"
  sub_p256dh :: string
  sub_auth :: string

record user =
  user_id :: int
  username :: string

datatype exn = ERR_HTTP_HEADERS_SENT | TypeError | SequelizeError

text \<open>A table answers a query with its matching rows, or the query rejects.\<close>

datatype 'row table = Rows "'row list" | Unavailable

record db =
  alarm_table :: "alarm table"
  subscription_table :: "subscription table"
  user_table :: "user table"

fun findAll :: "'row table \<Rightarrow> ('row \<Rightarrow> bool) \<Rightarrow> exn + 'row list" where
  "findAll Unavailable wh = Inl SequelizeError"
| "findAll (Rows rows) wh = Inr (filter wh rows)"

fun findOne :: "'row table \<Rightarrow> ('row \<Rightarrow> bool) \<Rightarrow> exn + 'row option" where
  "findOne Unavailable wh = Inl SequelizeError"
| "findOne (Rows rows) wh = Inr (find wh rows)"

subsection \<open>Push dispatch and the fan-out loop\<close>

record push_keys =
  p256dh :: string
  auth :: string

record push_sub =
  endpoint :: string
  expirationTime :: "int option"
  keys :: push_keys

definition to_sub :: "subscription \<Rightarrow> push_sub" where
  "to_sub subscription =
     \<lparr>endpoint = sub_endpoint subscription,
      expirationTime = sub_expirationTime subscription,
      keys = \<lparr>p256dh = sub_p256dh subscription, auth = sub_auth subscription\<rparr>\<rparr>"

text \<open>
  \<open>push.sendNotification\<close> is the web-push library: \<open>send k sub n\<close> tells whether the
  \<open>k\<close>-th call of a handler run, with these arguments, resolves (\<open>True\<close>) or rejects. The
  notification \<open>n\<close> stands for its \<open>JSON.stringify\<close>.
\<close>

type_synonym 'n dispatcher = "nat \<Rightarrow> push_sub \<Rightarrow> 'n \<Rightarrow> bool"

record 'n fan =
  successfulNotifications :: nat
  errors :: "string list"
  calls :: "(push_sub \<times> 'n) list"

text \<open>
  The \<open>for (let subscription of dbSubscriptions)\<close> loop of \<open>notifyAllUsers\<close> and of
  \<open>confirmAlarm\<close>; the two differ in the notification only, which is the same for every
  subscription of one run. \<open>calls\<close> records every \<open>sendNotification\<close> made, in order.
\<close>

fun fanOut :: "'n dispatcher \<Rightarrow> 'n \<Rightarrow> subscription list \<Rightarrow> 'n fan \<Rightarrow> 'n fan" where
  "fanOut send notification [] acc = acc"
| "fanOut send notification (subscription # rest) acc =
     (let sub = to_sub subscription;
          k = length (calls acc);
          acc' = acc\<lparr>calls := calls acc @ [(sub, notification)]\<rparr>
      in if send k sub notification
         then fanOut send notification rest
                (acc'\<lparr>successfulNotifications := successfulNotifications acc' + 1\<rparr>)
         else fanOut send notification rest
                (acc'\<lparr>errors := errors acc' @ [''Error occurred when sending notification'']\<rparr>))"

definition fan0 :: "'n fan" where
  "fan0 = \<lparr>successfulNotifications = 0, errors = [], calls = []\<rparr>"

subsection \<open>HTTP replies\<close>

datatype jval = JNull | JBool bool | JStr string

text \<open>
  The bodies the three handlers send. \<open>ConfirmBody\<close> is
  \<open>{confirmed, location, totalSubscriptions, successfulNotifications, errors}\<close>,
  \<open>NotifyBody\<close> is \<open>{totalSubscriptions, successfulNotifications, errors}\<close>,
  \<open>ErrorBody\<close> is \<open>{error}\<close>, \<open>ErrorsBody\<close> is \<open>{errors}\<close>, \<open>TextBody\<close> is \<open>res.send\<close> of a string.
\<close>

datatype body =
    ConfirmBody jval string nat nat "string list"
  | NotifyBody nat nat "string list"
  | ErrorBody string
  | ErrorsBody string
  | TextBody string

type_synonym reply = "nat \<times> body"

type_synonym res_id = nat

subsection \<open>\<open>notifyAllUsers\<close>\<close>

text \<open>
  The handler's reply and the pushes it made. The subscription query is outside any
  \<open>try\<close>: when it rejects, the handler rejects without replying.
\<close>

definition notifyAllUsers :: "db \<Rightarrow> 'n dispatcher \<Rightarrow> 'n \<Rightarrow> (exn + reply) \<times> (push_sub \<times> 'n) list" where
  "notifyAllUsers d send notification =
     (case findAll (subscription_table d) (\<lambda>_. True) of
        Inl e \<Rightarrow> (Inl e, [])
      | Inr dbSubscriptions \<Rightarrow>
          if length dbSubscriptions = 0 then (Inr (200, NotifyBody 0 0 []), [])
          else
            let f = fanOut send notification dbSubscriptions fan0
            in (Inr (200, NotifyBody (length dbSubscriptions) (successfulNotifications f) (errors f)),
                calls f))"

subsection \<open>The pending map and the response objects\<close>

text \<open>
  The array stored in \<open>alarmMap\<close>:
  \<open>[res, alarm.userId, dbSubscriptions.length, successfulNotifications, errors, alarm.location]\<close>,
  its six positions named in that order (\<open>successes\<close> is \<open>value[3]\<close>, \<open>failures\<close> is \<open>value[4]\<close>).
\<close>

record entry =
  sink :: res_id
  ownerUserId :: int
  totalSubscriptions :: nat
  successes :: nat
  failures :: "string list"
  location :: string

text \<open>
  \<open>alarmMap\<close> is a JavaScript \<open>Map\<close>: keys are unique and kept in insertion order, \<open>set\<close> on
  a key that is present replaces the value in place. \<open>sent\<close> is what each Express response
  object has sent to its client, in the order sent.
\<close>

record server =
  alarmMap :: "(string \<times> entry) list"
  sent :: "(res_id \<times> reply) list"

definition headersSent :: "server \<Rightarrow> res_id \<Rightarrow> bool" where
  "headersSent st r = (r \<in> set (map fst (sent st)))"

text \<open>
  \<open>res.status(code).json(body)\<close> and \<open>res.status(code).send(text)\<close>: Express refuses a second
  reply on the same response object by throwing \<open>ERR_HTTP_HEADERS_SENT\<close>.
\<close>

definition send_reply :: "res_id \<Rightarrow> reply \<Rightarrow> server \<Rightarrow> exn + server" where
  "send_reply r rep st =
     (if headersSent st r then Inl ERR_HTTP_HEADERS_SENT
      else Inr (st\<lparr>sent := sent st @ [(r, rep)]\<rparr>))"

subsection \<open>\<open>confirmAlarm\<close>\<close>

record action =
  action_name :: string
  action_title :: string
  action_type :: string

record notification =
  title :: string
  message :: string
  actions :: "action list"

definition prompt :: "int \<Rightarrow> alarm \<Rightarrow> int \<Rightarrow> notification" where
  "prompt tz alarm timeStamp =
     \<lparr>title = ''Alarm Confirmation'',
      message = ''Alarm was triggered at '' @ alarm_location alarm @ '' at '' @ unixToDate tz timeStamp
                @ ''. Please confirm the existence of a fire.'',
      actions = [\<lparr>action_name = ''confirm'', action_title = ''Confirm Alarm'', action_type = ''button''\<rparr>,
                 \<lparr>action_name = ''deny'', action_title = ''False Alarm'', action_type = ''button''\<rparr>]\<rparr>"

text \<open>\<open>!alarm.userId\<close>: \<open>null\<close> and \<open>0\<close> are both falsy.\<close>

definition falsy :: "int option \<Rightarrow> bool" where
  "falsy v = (case v of None \<Rightarrow> True | Some n \<Rightarrow> n = 0)"

text \<open>\<open>alarm.userId\<close> where it is a number; it is read only after the falsy test.\<close>

definition userId_of :: "alarm \<Rightarrow> int" where
  "userId_of alarm = (case alarm_userId alarm of None \<Rightarrow> 0 | Some n \<Rightarrow> n)"

text \<open>
  The \<open>try\<close> block of \<open>confirmAlarm\<close>: the reply of an early \<open>return\<close>, or the alarm and
  its user's subscriptions.
\<close>

definition confirmAlarm_lookup :: "db \<Rightarrow> string \<Rightarrow> reply + (alarm \<times> subscription list)" where
  "confirmAlarm_lookup d alarmId =
     (case findAll (alarm_table d) (\<lambda>a. alarmSerial a = alarmId) of
        Inl e \<Rightarrow> Inl (500, ErrorBody ''Unknown error occurred'')
      | Inr alarms \<Rightarrow>
         (case alarms of
            [] \<Rightarrow> Inl (404, ErrorBody ''Couldn't find alarm with provided alarm ID'')
          | alarm # _ \<Rightarrow>
             if falsy (alarm_userId alarm)
             then Inl (404, ErrorBody ''Alarm doesn't have a user assigned'')
             else
               (case findAll (subscription_table d) (\<lambda>s. Some (sub_userId s) = alarm_userId alarm) of
                  Inl e \<Rightarrow> Inl (500, ErrorBody ''Unknown error occurred'')
                | Inr dbSubscriptions \<Rightarrow>
                    if length dbSubscriptions = 0
                    then Inl (404, ErrorBody ''Couldn't find user in subscriptions'')
                    else Inr (alarm, dbSubscriptions))))"

text \<open>\<open>delay(seconds)\<close> arms a timer of \<open>seconds * 1000\<close> milliseconds.\<close>

definition delay :: "nat \<Rightarrow> nat" where
  "delay seconds = seconds * 1000"

text \<open>
  What a suspended \<open>confirmAlarm\<close> holds across \<open>await delay(15)\<close>: its key, its own copies of
  the values it stored, and its timer.
\<close>

record pending =
  p_key :: string
  p_entry :: entry
  p_timer :: nat

record outcome =
  after :: server
  pushes :: "(push_sub \<times> notification) list"
  suspended :: "pending option"
  raised :: "exn option"

text \<open>
  \<open>confirmAlarm\<close> up to \<open>await delay(15)\<close>. The key is the template literal
  \<open>`${alarm.id}-${timeStamp}`\<close>, both numbers printed by \<open>lit\<close>.
\<close>

definition confirmAlarm_begin ::
    "literal \<Rightarrow> int \<Rightarrow> db \<Rightarrow> notification dispatcher \<Rightarrow> server \<Rightarrow> res_id \<Rightarrow> string \<Rightarrow> int
       \<Rightarrow> outcome" where
  "confirmAlarm_begin lit tz d send st res alarmId timeStamp =
     (case confirmAlarm_lookup d alarmId of
        Inl rep \<Rightarrow>
          (case send_reply res rep st of
             Inl e \<Rightarrow> \<lparr>after = st, pushes = [], suspended = None, raised = Some e\<rparr>
           | Inr st' \<Rightarrow> \<lparr>after = st', pushes = [], suspended = None, raised = None\<rparr>)
      | Inr (alarm, dbSubscriptions) \<Rightarrow>
          let f = fanOut send (prompt tz alarm timeStamp) dbSubscriptions fan0;
              key = lit (alarm_id alarm) @ ''-'' @ lit timeStamp;
              v = \<lparr>sink = res, ownerUserId = userId_of alarm,
                   totalSubscriptions = length dbSubscriptions,
                   successes = successfulNotifications f, failures = errors f,
                   location = alarm_location alarm\<rparr>
          in \<lparr>after = st\<lparr>alarmMap := AList.update key v (alarmMap st)\<rparr>,
              pushes = calls f,
              suspended = Some \<lparr>p_key = key, p_entry = v, p_timer = delay 15\<rparr>,
              raised = None\<rparr>)"

text \<open>
  \<open>confirmAlarm\<close> after the timer: \<open>alarmMap.get(key)\<close> is an array when the key is present,
  hence truthy. The reply is built from the handler's own variables, not from the map.
\<close>

definition confirmAlarm_wake :: "server \<Rightarrow> pending \<Rightarrow> server \<times> exn option" where
  "confirmAlarm_wake st p =
     (case map_of (alarmMap st) (p_key p) of
        None \<Rightarrow> (st, None)
      | Some _ \<Rightarrow>
          let st' = st\<lparr>alarmMap := AList.delete (p_key p) (alarmMap st)\<rparr>;
              e = p_entry p
          in (case send_reply (sink e)
                     (200, ConfirmBody (JStr ''null'') (location e) (totalSubscriptions e)
                             (successes e) (failures e)) st' of
                Inl x \<Rightarrow> (st', Some x)
              | Inr st'' \<Rightarrow> (st'', None)))"

subsection \<open>\<open>logResponse\<close>\<close>

definition answer :: "jval \<Rightarrow> entry \<Rightarrow> reply" where
  "answer confirmed v =
     (200, ConfirmBody confirmed (location v) (totalSubscriptions v) (successes v) (failures v))"

text \<open>
  The \<open>for (const [key, value] of alarmMap)\<close> loop. The only key it deletes is the one it
  is visiting, so it visits the entries the map had when the loop began. A throw leaves
  the loop with what was done so far.
\<close>

fun deliver :: "int \<Rightarrow> jval \<Rightarrow> (string \<times> entry) list \<Rightarrow> server \<Rightarrow> server \<times> exn option" where
  "deliver userId confirmed [] st = (st, None)"
| "deliver userId confirmed ((key, v) # rest) st =
     (if ownerUserId v = userId then
        (case send_reply (sink v) (answer confirmed v) st of
           Inl x \<Rightarrow> (st, Some x)
         | Inr st' \<Rightarrow>
             deliver userId confirmed rest (st'\<lparr>alarmMap := AList.delete key (alarmMap st')\<rparr>))
      else deliver userId confirmed rest st)"

text \<open>\<open>return res.status(200).send('Response received')\<close>, the handler's last statement.\<close>

definition received :: "res_id \<Rightarrow> server \<Rightarrow> server \<times> exn option" where
  "received res st =
     (case send_reply res (200, TextBody ''Response received'') st of
        Inl x \<Rightarrow> (st, Some x)
      | Inr st' \<Rightarrow> (st', None))"

text \<open>
  \<open>logResponse\<close>. \<open>db_user.id\<close> is an integer column, on which \<open>parseInt\<close> is the identity;
  on \<open>null\<close> the property read throws a \<open>TypeError\<close> outside the \<open>try\<close>.
\<close>

definition logResponse :: "db \<Rightarrow> server \<Rightarrow> res_id \<Rightarrow> string \<Rightarrow> jval \<Rightarrow> server \<times> exn option" where
  "logResponse d st res name confirmed =
     (case findOne (user_table d) (\<lambda>u. username u = name) of
        Inl e \<Rightarrow> (st, Some e)
      | Inr None \<Rightarrow> (st, Some TypeError)
      | Inr (Some db_user) \<Rightarrow>
          let userId = user_id db_user in
          (case deliver userId confirmed (alarmMap st) st of
             (st1, None) \<Rightarrow> received res st1
           | (st1, Some _) \<Rightarrow>
               (case send_reply res (500, ErrorsBody ''Error occurred confirming alarm.'') st1 of
                  Inl x \<Rightarrow> (st1, Some x)
                | Inr st2 \<Rightarrow> received res st2)))"

subsection \<open>The server as a whole\<close>

text \<open>
  What the event loop runs, one atomic stretch at a time: a \<open>/confirm\<close> request up to its
  timer, the timer of a suspended \<open>/confirm\<close> request firing, and a \<open>/response\<close> request.
  Every request reads the store as it is when it runs. \<open>sleeping\<close> are the handlers
  suspended on their timers, \<open>rejections\<close> what handlers have thrown. Timers may fire in
  any order here; Node fires equal delays in the order they were armed.
\<close>

datatype event =
    Confirm int db "notification dispatcher" res_id string int
  | Wake res_id
  | Response db res_id string jval

record config =
  srv :: server
  sleeping :: "pending list"
  rejections :: "exn list"

definition thrown :: "exn option \<Rightarrow> exn list" where
  "thrown x = (case x of None \<Rightarrow> [] | Some e \<Rightarrow> [e])"

fun step :: "literal \<Rightarrow> config \<Rightarrow> event \<Rightarrow> config" where
  "step lit c (Confirm tz d send res alarmId timeStamp) =
     (let out = confirmAlarm_begin lit tz d send (srv c) res alarmId timeStamp
      in c\<lparr>srv := after out,
           sleeping := sleeping c @ (case suspended out of None \<Rightarrow> [] | Some p \<Rightarrow> [p]),
           rejections := rejections c @ thrown (raised out)\<rparr>)"
| "step lit c (Wake res) =
     (case find (\<lambda>p. sink (p_entry p) = res) (sleeping c) of
        None \<Rightarrow> c
      | Some p \<Rightarrow>
          c\<lparr>srv := fst (confirmAlarm_wake (srv c) p),
            sleeping := remove1 p (sleeping c),
            rejections := rejections c @ thrown (snd (confirmAlarm_wake (srv c) p))\<rparr>)"
| "step lit c (Response d res name confirmed) =
     c\<lparr>srv := fst (logResponse d (srv c) res name confirmed),
       rejections := rejections c @ thrown (snd (logResponse d (srv c) res name confirmed))\<rparr>"

definition run :: "literal \<Rightarrow> config \<Rightarrow> event list \<Rightarrow> config" where
  "run lit c evs = foldl (step lit) c evs"

definition boot :: config where
  "boot = \<lparr>srv = \<lparr>alarmMap = [], sent = []\<rparr>, sleeping = [], rejections = []\<rparr>"

text \<open>
  Express hands every request a response object of its own: one that has sent nothing and
  that no suspended handler holds.
\<close>

definition fresh :: "config \<Rightarrow> res_id \<Rightarrow> bool" where
  "fresh c r = (\<not> headersSent (srv c) r \<and> r \<notin> set (map (\<lambda>p. sink (p_entry p)) (sleeping c)))"

fun admitted :: "config \<Rightarrow> event \<Rightarrow> bool" where
  "admitted c (Confirm tz d send res alarmId timeStamp) = fresh c res"
| "admitted c (Wake res) = True"
| "admitted c (Response d res name confirmed) = fresh c res"

fun valid :: "literal \<Rightarrow> config \<Rightarrow> event list \<Rightarrow> bool" where
  "valid lit c [] = True"
| "valid lit c (ev # evs) = (admitted c ev \<and> valid lit (step lit c ev) evs)"

text \<open>
  A \<open>/confirm\<close> request stores again under the key of the handler \<open>p\<close> when \<open>p\<close> is still
  suspended on its timer, its response object has already replied (a \<open>logResponse\<close> has
  completed its entry), and the request stores its own entry under the key of \<open>p\<close>. A run
  leaves \<open>p\<close> unrestored when none of its requests does so.
\<close>

fun restores :: "literal \<Rightarrow> config \<Rightarrow> event \<Rightarrow> pending \<Rightarrow> bool" where
  "restores lit c (Confirm tz d send res alarmId timeStamp) p =
     (p \<in> set (sleeping c) \<and> headersSent (srv c) (sink (p_entry p)) \<and>
      (case suspended (confirmAlarm_begin lit tz d send (srv c) res alarmId timeStamp) of
         None \<Rightarrow> False
       | Some q \<Rightarrow> p_key q = p_key p))"
| "restores lit c (Wake res) p = False"
| "restores lit c (Response d res name confirmed) p = False"

fun unrestored :: "literal \<Rightarrow> config \<Rightarrow> event list \<Rightarrow> pending \<Rightarrow> bool" where
  "unrestored lit c [] p = True"
| "unrestored lit c (ev # evs) p = (\<not> restores lit c ev p \<and> unrestored lit (step lit c ev) evs p)"


subsection \<open>Well-formed states\<close>

text \<open>
  Of a server state: keys are unique (it is a \<open>Map\<close>), no two entries share a response
  object, and no entry's response object has replied.
\<close>

definition srv_inv :: "server \<Rightarrow> bool" where
  "srv_inv st =
     (distinct (map fst (alarmMap st)) \<and>
      distinct (map (\<lambda>kv. sink (snd kv)) (alarmMap st)) \<and>
      (\<forall>kv \<in> set (alarmMap st). \<not> headersSent st (sink (snd kv))))"

text \<open>Every entry was stored by a handler that is still suspended, under that handler's key.\<close>

definition owned :: "config \<Rightarrow> bool" where
  "owned c =
     (\<forall>kv \<in> set (alarmMap (srv c)). \<exists>p \<in> set (sleeping c). p_key p = fst kv \<and> p_entry p = snd kv)"

definition inv1 :: "config \<Rightarrow> bool" where
  "inv1 c = (srv_inv (srv c) \<and> owned c \<and> distinct (map (\<lambda>p. sink (p_entry p)) (sleeping c)))"

text \<open>
  A suspended handler is stale when its response object has replied and its key is in the
  map all the same. \<open>no_stale\<close> says that the handler \<open>p\<close> is not.
\<close>

definition no_stale :: "config \<Rightarrow> pending \<Rightarrow> bool" where
  "no_stale c p =
     (p \<in> set (sleeping c) \<longrightarrow> headersSent (srv c) (sink (p_entry p)) \<longrightarrow>
        map_of (alarmMap (srv c)) (p_key p) = None)"

text \<open>The reply of the timeout path, and the entries of one user.\<close>

definition timeout_reply :: "entry \<Rightarrow> reply" where
  "timeout_reply v =
     (200, ConfirmBody (JStr ''null'') (location v) (totalSubscriptions v) (successes v) (failures v))"

definition of_user :: "int \<Rightarrow> string \<times> entry \<Rightarrow> bool" where
  "of_user uid kv = (ownerUserId (snd kv) = uid)"

text \<open>The dispatches of a run that reject, by their position in the subscription list.\<close>

definition failed :: "'n dispatcher \<Rightarrow> 'n \<Rightarrow> subscription list \<Rightarrow> nat list" where
  "failed send n subs = filter (\<lambda>i. \<not> send i (to_sub (subs ! i)) n) [0..<length subs]"

text \<open>
  The key and the entry that \<open>confirmAlarm\<close> stores for an alarm, a timestamp and the
  subscriptions it pushed to, with the counts written out, and the handler that is then
  suspended.
\<close>

definition stored :: "int \<Rightarrow> notification dispatcher \<Rightarrow> res_id \<Rightarrow> int \<Rightarrow> alarm \<Rightarrow> subscription list \<Rightarrow> entry" where
  "stored tz send res t alarm subs =
     \<lparr>sink = res, ownerUserId = userId_of alarm, totalSubscriptions = length subs,
      successes = length subs - length (failed send (prompt tz alarm t) subs),
      failures = replicate (length (failed send (prompt tz alarm t) subs))
                   ''Error occurred when sending notification'',
      location = alarm_location alarm\<rparr>"

definition key_of :: "literal \<Rightarrow> alarm \<Rightarrow> int \<Rightarrow> string" where
  "key_of lit alarm t = lit (alarm_id alarm) @ ''-'' @ lit t"


subsection \<open>A concrete household\<close>

text \<open>
  Alarm \<open>A1\<close> of user 7, who has two devices; the push to the second device fails. Alarm
  \<open>A2\<close> has no user, and alarm \<open>A3\<close> belongs to user 8, who has no device.
\<close>

definition phone :: subscription where
  "phone = \<lparr>sub_userId = 7, sub_endpoint = ''https://push.example/phone'', sub_expirationTime = None,
            sub_p256dh = ''k1'', sub_auth = ''a1''\<rparr>"

definition tablet :: subscription where
  "tablet = \<lparr>sub_userId = 7, sub_endpoint = ''https://push.example/tablet'', sub_expirationTime = None,
             sub_p256dh = ''k2'', sub_auth = ''a2''\<rparr>"

definition alarm1 :: alarm where
  "alarm1 = \<lparr>alarm_id = 1, alarmSerial = ''A1'', alarm_userId = Some 7, alarm_location = ''Kitchen''\<rparr>"

definition home :: db where
  "home = \<lparr>alarm_table = Rows [alarm1,
                               \<lparr>alarm_id = 2, alarmSerial = ''A2'', alarm_userId = None,
                                 alarm_location = ''Garage''\<rparr>,
                               \<lparr>alarm_id = 3, alarmSerial = ''A3'', alarm_userId = Some 8,
                                 alarm_location = ''Attic''\<rparr>],
           subscription_table = Rows [phone, tablet],
           user_table = Rows [\<lparr>user_id = 7, username = ''ann''\<rparr>, \<lparr>user_id = 8, username = ''bob''\<rparr>]\<rparr>"

definition flaky :: "'n dispatcher" where
  "flaky k sub n = (k \<noteq> 1)"

definition kitchen :: entry where
  "kitchen = \<lparr>sink = 11, ownerUserId = 7, totalSubscriptions = 2, successes = 1,
              failures = [''Error occurred when sending notification''], location = ''Kitchen''\<rparr>"

definition steady :: "'n dispatcher" where
  "steady k sub n = True"

text \<open>
  The household's alarm confirmed, answered by Ann, and confirmed again a minute later.
\<close>

definition calm :: "event list" where
  "calm = [Confirm 0 home flaky 11 ''A1'' 1700000000,
           Response home 21 ''ann'' (JBool True),
           Confirm 0 home steady 13 ''A1'' 1700000060]"

text \<open>
  The same alarm and timestamp confirmed twice, the second time after the user has
  answered the first and before the first request's timer; then that timer fires.
\<close>

definition stale :: "event list" where
  "stale = [Confirm 0 home flaky 11 ''A1'' 1700000000,
            Response home 21 ''ann'' (JBool True),
            Confirm 0 home steady 13 ''A1'' 1700000000,
            Wake 11]"


text \<open>
  A server with three requests suspended: two of user 7 (response objects 11 and 13) and
  one of a user 9 (response object 12).
\<close>

definition garage :: entry where
  "garage = \<lparr>sink = 12, ownerUserId = 9, totalSubscriptions = 1, successes = 1,
              failures = [], location = ''Garage''\<rparr>"

definition busy :: server where
  "busy = \<lparr>alarmMap = [(''1-1700000000'', kitchen), (''2-1700000001'', garage),
                        (''1-1700000002'', kitchen\<lparr>sink := 13\<rparr>)], sent = []\<rparr>"

section \<open>Time formatting\<close>

lemma nat_str_small: "n < 10 \<Longrightarrow> nat_str n = [digit_char n]"
  by (simp add: nat_str.simps)

lemma nat_str_not_Nil: "nat_str n \<noteq> []"
  by (subst nat_str.simps) simp

lemma length_nat_str_one: "length (nat_str n) = Suc 0 \<longleftrightarrow> n < 10"
proof
  assume one: "length (nat_str n) = Suc 0"
  show "n < 10"
  proof (rule ccontr)
    assume "\<not> n < 10"
    then have "nat_str n = nat_str (n div 10) @ [digit_char (n mod 10)]"
      by (subst nat_str.simps) simp
    with one have "nat_str (n div 10) = []" by simp
    then show False by (simp add: nat_str_not_Nil)
  qed
next
  assume "n < 10"
  then show "length (nat_str n) = Suc 0" by (simp add: nat_str_small)
qed

lemma length_pad2: "2 \<le> length (pad2 n)"
proof (cases "length (nat_str n) = 1")
  case True
  then show ?thesis by (simp add: pad2_def)
next
  case False
  moreover have "length (nat_str n) \<noteq> 0" by (simp add: nat_str_not_Nil)
  ultimately have "2 \<le> length (nat_str n)" by arith
  with False show ?thesis by (simp add: pad2_def)
qed

lemma substring_neg: "substring (- 2) s = s"
  by (simp add: substring_def)

text \<open>
  Claim C10. Whenever the seconds of the (valid) trigger time are a single digit,
  \<open>unixToDate\<close> prints, in the place of the seconds, \<open>"0"\<close> followed by the minutes string
  as already padded: the branch that pads the seconds concatenates \<open>minutes\<close>. What it
  prints there has at least three characters, so it is never the two-digit seconds.
\<close>

theorem unixToDate_single_digit_seconds:
  assumes "date_valid (t * 1000)" and "getSeconds tz (t * 1000) < 10"
  shows "unixToDate tz t =
           nat_str (getHours tz (t * 1000)) @ '':'' @ pad2 (getMinutes tz (t * 1000))
             @ '':'' @ (''0'' @ pad2 (getMinutes tz (t * 1000)))
         \<and> ''0'' @ pad2 (getMinutes tz (t * 1000)) \<noteq> pad2 (getSeconds tz (t * 1000))
         \<and> unixToDate tz t \<noteq>
           nat_str (getHours tz (t * 1000)) @ '':'' @ pad2 (getMinutes tz (t * 1000))
             @ '':'' @ pad2 (getSeconds tz (t * 1000))"
proof -
  let ?m = "getMinutes tz (t * 1000)" and ?s = "getSeconds tz (t * 1000)"
  have one: "length (nat_str ?s) = 1"
    using assms(2) by (simp add: length_nat_str_one)
  have eq: "unixToDate tz t =
           nat_str (getHours tz (t * 1000)) @ '':'' @ pad2 ?m @ '':'' @ (''0'' @ pad2 ?m)"
    using assms(1) one by (simp add: unixToDate_def Let_def substring_neg pad2_def)
  have "length (pad2 ?s) = 2"
    using one by (simp add: pad2_def)
  moreover have "3 \<le> length (''0'' @ pad2 ?m)"
    using length_pad2 [of ?m] by simp
  ultimately have "length (''0'' @ pad2 ?m) \<noteq> length (pad2 ?s)"
    by arith
  then have ne: "''0'' @ pad2 ?m \<noteq> pad2 ?s"
    by metis
  from eq ne show ?thesis by simp
qed

text \<open>At 22:14:05 UTC the prompt reads \<open>22:14:014\<close>.\<close>

theorem unixToDate_single_digit_seconds_witness:
  "date_valid (1700000045 * 1000) \<and> getSeconds 0 (1700000045 * 1000) < 10
   \<and> unixToDate 0 1700000045 = ''22:14:014''"
  using unixToDate_single_digit_seconds [of 1700000045 0]
  by (simp add: date_valid_def getHours_def getMinutes_def getSeconds_def
      nat_str.simps digit_char_def pad2_def)

section \<open>Fan-out\<close>

lemma fanOut_calls:
  "calls (fanOut send n subs acc) = calls acc @ map (\<lambda>s. (to_sub s, n)) subs"
  by (induction subs arbitrary: acc) (simp_all add: Let_def)

lemma failed_count_Cons:
  "length (filter (\<lambda>i. \<not> send (k + i) (to_sub ((s # rest) ! i)) n) [0..<Suc (length rest)]) =
     (if send k (to_sub s) n then 0 else 1)
     + length (filter (\<lambda>i. \<not> send (Suc k + i) (to_sub (rest ! i)) n) [0..<length rest])"
proof -
  have "[0..<Suc (length rest)] = 0 # map Suc [0..<length rest]"
    by (simp only: map_Suc_upt upt_conv_Cons [of 0 "Suc (length rest)"] zero_less_Suc)
  then show ?thesis
    by (simp add: filter_map o_def)
qed

lemma fanOut_errors:
  "errors (fanOut send n subs acc) =
     errors acc @ replicate
       (length (filter (\<lambda>i. \<not> send (length (calls acc) + i) (to_sub (subs ! i)) n) [0..<length subs]))
       ''Error occurred when sending notification''"
proof (induction subs arbitrary: acc)
  case Nil
  then show ?case by simp
next
  case (Cons s rest)
  show ?case
    by (simp add: Let_def Cons.IH failed_count_Cons [of send "length (calls acc)" s rest n]
        replicate_app_Cons_same del: upt_Suc)
qed

lemma fanOut_successes:
  "successfulNotifications (fanOut send n subs acc)
     + length (filter (\<lambda>i. \<not> send (length (calls acc) + i) (to_sub (subs ! i)) n) [0..<length subs])
   = successfulNotifications acc + length subs"
proof (induction subs arbitrary: acc)
  case Nil
  then show ?case by simp
next
  case (Cons s rest)
  show ?case
    using Cons.IH [of "acc\<lparr>calls := calls acc @ [(to_sub s, n)],
                         successfulNotifications := successfulNotifications acc + 1\<rparr>"]
      Cons.IH [of "acc\<lparr>calls := calls acc @ [(to_sub s, n)],
                      errors := errors acc @ [''Error occurred when sending notification'']\<rparr>"]
    by (simp add: Let_def failed_count_Cons [of send "length (calls acc)" s rest n]
        del: upt_Suc)
qed

lemma fanOut_fan0:
  "fanOut send n subs fan0 =
     \<lparr>successfulNotifications = length subs - length (failed send n subs),
      errors = replicate (length (failed send n subs)) ''Error occurred when sending notification'',
      calls = map (\<lambda>s. (to_sub s, n)) subs\<rparr>"
proof -
  have "successfulNotifications (fanOut send n subs fan0) + length (failed send n subs) = length subs"
    using fanOut_successes [of send n subs fan0] by (simp add: fan0_def failed_def)
  then have "successfulNotifications (fanOut send n subs fan0) = length subs - length (failed send n subs)"
    by arith
  then show ?thesis
    using fanOut_calls [of send n subs fan0] fanOut_errors [of send n subs fan0]
    by (cases "fanOut send n subs fan0") (simp add: fan0_def failed_def)
qed

text \<open>
  Claim C6. With no subscription \<open>notifyAllUsers\<close> answers \<open>{0, 0, []}\<close> and calls the push
  service not at all. With \<open>N\<close> subscriptions of which \<open>K\<close> dispatches reject it answers
  \<open>N\<close>, \<open>N - K\<close> and \<open>K\<close> error strings, and it has called the push service once for every
  subscription, in order, whatever failed before: no short cut and no retry. The loop of
  \<open>confirmAlarm\<close> stores the same counts in its entry.
\<close>

theorem fan_out_aggregation:
  "notifyAllUsers (d\<lparr>subscription_table := Rows []\<rparr>) send n = (Inr (200, NotifyBody 0 0 []), [])
   \<and> notifyAllUsers (d\<lparr>subscription_table := Rows subs\<rparr>) send n =
       (Inr (200, NotifyBody (length subs) (length subs - length (failed send n subs))
                    (replicate (length (failed send n subs)) ''Error occurred when sending notification'')),
        map (\<lambda>s. (to_sub s, n)) subs)
   \<and> (confirmAlarm_lookup d' alarmId = Inr (alarm, subs) \<longrightarrow>
        pushes (confirmAlarm_begin lit tz d' send' st res alarmId t) = map (\<lambda>s. (to_sub s, prompt tz alarm t)) subs
        \<and> (\<exists>p. suspended (confirmAlarm_begin lit tz d' send' st res alarmId t) = Some p
             \<and> totalSubscriptions (p_entry p) = length subs
             \<and> successes (p_entry p) = length subs - length (failed send' (prompt tz alarm t) subs)
             \<and> failures (p_entry p) =
                 replicate (length (failed send' (prompt tz alarm t) subs))
                   ''Error occurred when sending notification''))"
  by (cases subs) (simp_all add: notifyAllUsers_def confirmAlarm_begin_def fanOut_fan0 Let_def failed_def)


lemma lookup_home: "confirmAlarm_lookup home ''A1'' = Inr (alarm1, [phone, tablet])"
  by (simp add: confirmAlarm_lookup_def home_def falsy_def phone_def tablet_def alarm1_def)

lemma failed_flaky: "failed flaky n [phone, tablet] = [1]"
  by (simp add: failed_def flaky_def upt_rec)

text \<open>Two devices, the push to the second one fails: counts 2 and 1, one error, two pushes.\<close>

theorem fan_out_aggregation_witness:
  "confirmAlarm_lookup home ''A1'' = Inr (alarm1, [phone, tablet])
   \<and> fst (notifyAllUsers home flaky ''fire'') =
        Inr (200, NotifyBody 2 1 [''Error occurred when sending notification''])
   \<and> snd (notifyAllUsers home flaky ''fire'') = [(to_sub phone, ''fire''), (to_sub tablet, ''fire'')]
   \<and> pushes (confirmAlarm_begin int_str 0 home flaky (srv boot) 11 ''A1'' 1700000000) =
        [(to_sub phone, prompt 0 alarm1 1700000000), (to_sub tablet, prompt 0 alarm1 1700000000)]
   \<and> (\<exists>p. suspended (confirmAlarm_begin int_str 0 home flaky (srv boot) 11 ''A1'' 1700000000) = Some p
        \<and> totalSubscriptions (p_entry p) = 2 \<and> successes (p_entry p) = 1
        \<and> failures (p_entry p) = [''Error occurred when sending notification''])"
proof -
  have h: "home\<lparr>subscription_table := Rows [phone, tablet]\<rparr> = home"
    by (simp add: home_def)
  show ?thesis
    using fan_out_aggregation [of home flaky "''fire''" "[phone, tablet]" home "''A1''" alarm1
        int_str 0 flaky "srv boot" 11 1700000000]
    by (simp add: lookup_home failed_flaky h numeral_2_eq_2)
qed

section \<open>What each handler does to the server\<close>

lemma send_reply_ok:
  "\<not> headersSent st r \<Longrightarrow> send_reply r rep st = Inr (st\<lparr>sent := sent st @ [(r, rep)]\<rparr>)"
  by (simp add: send_reply_def)

lemma send_reply_refused:
  "headersSent st r \<Longrightarrow> send_reply r rep st = Inl ERR_HTTP_HEADERS_SENT"
  by (simp add: send_reply_def)

lemma headersSent_append [simp]:
  "headersSent (st\<lparr>sent := sent st @ xs\<rparr>) r \<longleftrightarrow> headersSent st r \<or> r \<in> fst ` set xs"
  by (auto simp add: headersSent_def)

lemma headersSent_alarmMap [simp]:
  "headersSent (st\<lparr>alarmMap := m\<rparr>) r \<longleftrightarrow> headersSent st r"
  by (simp add: headersSent_def)

lemma delete_as_filter: "AList.delete k m = filter (\<lambda>kv. fst kv \<noteq> k) m"
  by (induction m) auto

text \<open>The loop of \<open>logResponse\<close> over any list of entries with silent, distinct response objects.\<close>

lemma deliver_effect:
  assumes "distinct (map (\<lambda>kv. sink (snd kv)) xs)"
    and "\<forall>kv \<in> set xs. \<not> headersSent st (sink (snd kv))"
  shows "deliver uid c xs st =
     (st\<lparr>alarmMap := filter (\<lambda>kv. fst kv \<notin> fst ` set (filter (of_user uid) xs)) (alarmMap st),
         sent := sent st @ map (\<lambda>kv. (sink (snd kv), answer c (snd kv))) (filter (of_user uid) xs)\<rparr>,
      None)"
  using assms
proof (induction xs arbitrary: st)
  case Nil
  then show ?case by simp
next
  case (Cons kv rest)
  obtain key v where kv: "kv = (key, v)" by (cases kv)
  show ?case
  proof (cases "ownerUserId v = uid")
    case False
    have "deliver uid c (kv # rest) st = deliver uid c rest st"
      using False kv by simp
    moreover have "filter (of_user uid) (kv # rest) = filter (of_user uid) rest"
      using False kv by (simp add: of_user_def)
    moreover have "distinct (map (\<lambda>kv. sink (snd kv)) rest)"
        "\<forall>kv \<in> set rest. \<not> headersSent st (sink (snd kv))"
      using Cons.prems by simp_all
    ultimately show ?thesis
      using Cons.IH [of st] by (simp only:)
  next
    case True
    let ?st' = "st\<lparr>sent := sent st @ [(sink v, answer c v)],
                    alarmMap := AList.delete key (alarmMap st)\<rparr>"
    have silent: "\<not> headersSent st (sink v)"
      using Cons.prems(2) kv by simp
    have d: "distinct (map (\<lambda>kv. sink (snd kv)) rest)"
      using Cons.prems(1) by simp
    have nin: "sink v \<notin> (\<lambda>kv. sink (snd kv)) ` set rest"
      using Cons.prems(1) kv by simp
    have s: "\<forall>kv \<in> set rest. \<not> headersSent ?st' (sink (snd kv))"
    proof
      fix kv' assume m: "kv' \<in> set rest"
      then have "\<not> headersSent st (sink (snd kv'))" using Cons.prems(2) by simp
      moreover from m nin have "sink (snd kv') \<noteq> sink v" by (metis imageI)
      ultimately show "\<not> headersSent ?st' (sink (snd kv'))"
        by (simp add: headersSent_def)
    qed
    have step: "deliver uid c (kv # rest) st = deliver uid c rest ?st'"
      using True kv silent by (simp add: send_reply_ok)
    have yes: "filter (of_user uid) (kv # rest) = kv # filter (of_user uid) rest"
      using True kv by (simp add: of_user_def)
    have m: "filter (\<lambda>kv. fst kv \<notin> fst ` set (filter (of_user uid) rest)) (alarmMap ?st')
        = filter (\<lambda>kv'. fst kv' \<notin> fst ` set (kv # filter (of_user uid) rest)) (alarmMap st)"
      using kv by (simp add: delete_as_filter conj_commute)
    have "deliver uid c rest ?st' =
      (?st'\<lparr>alarmMap := filter (\<lambda>kv. fst kv \<notin> fst ` set (filter (of_user uid) rest)) (alarmMap ?st'),
         sent := sent ?st' @ map (\<lambda>kv. (sink (snd kv), answer c (snd kv))) (filter (of_user uid) rest)\<rparr>,
       None)"
      by (rule Cons.IH [OF d s])
    then show ?thesis
      unfolding step yes m using kv by simp
  qed
qed

lemma key_in_filter:
  assumes "distinct (map fst m)" and "kv \<in> set m"
  shows "fst kv \<in> fst ` set (filter P m) \<longleftrightarrow> P kv"
proof
  assume "fst kv \<in> fst ` set (filter P m)"
  then obtain kv' where kv': "kv' \<in> set m" "P kv'" "fst kv' = fst kv" by auto
  from assms(1) kv'(1) assms(2) kv'(3) have "kv' = kv"
    by (metis eq_key_imp_eq_value prod.collapse)
  with kv'(2) show "P kv" by simp
next
  assume "P kv"
  with assms(2) show "fst kv \<in> fst ` set (filter P m)" by auto
qed

lemma filter_keys_of_matches:
  assumes "distinct (map fst m)"
  shows "filter (\<lambda>kv. fst kv \<notin> fst ` set (filter P m)) m = filter (\<lambda>kv. \<not> P kv) m"
proof (rule filter_cong [OF refl])
  fix kv assume "kv \<in> set m"
  from key_in_filter [OF assms this, of P]
  show "(fst kv \<notin> fst ` set (filter P m)) = (\<not> P kv)" by simp
qed

lemma logResponse_effect:
  assumes inv: "srv_inv st"
    and user: "findOne (user_table d) (\<lambda>u. username u = name) = Inr (Some u)"
    and res: "\<not> headersSent st res" "res \<notin> (\<lambda>kv. sink (snd kv)) ` set (alarmMap st)"
  shows "logResponse d st res name c =
     (st\<lparr>alarmMap := filter (\<lambda>kv. \<not> of_user (user_id u) kv) (alarmMap st),
         sent := sent st @ map (\<lambda>kv. (sink (snd kv), answer c (snd kv)))
                             (filter (of_user (user_id u)) (alarmMap st))
                   @ [(res, (200, TextBody ''Response received''))]\<rparr>,
      None)"
proof -
  let ?m = "alarmMap st"
  let ?st1 = "st\<lparr>alarmMap := filter (\<lambda>kv. \<not> of_user (user_id u) kv) ?m,
         sent := sent st @ map (\<lambda>kv. (sink (snd kv), answer c (snd kv)))
                             (filter (of_user (user_id u)) ?m)\<rparr>"
  have "deliver (user_id u) c ?m st =
     (st\<lparr>alarmMap := filter (\<lambda>kv. fst kv \<notin> fst ` set (filter (of_user (user_id u)) ?m)) ?m,
         sent := sent st @ map (\<lambda>kv. (sink (snd kv), answer c (snd kv)))
                             (filter (of_user (user_id u)) ?m)\<rparr>, None)"
    using inv by (intro deliver_effect) (simp_all add: srv_inv_def)
  moreover have "filter (\<lambda>kv. fst kv \<notin> fst ` set (filter (of_user (user_id u)) ?m)) ?m
      = filter (\<lambda>kv. \<not> of_user (user_id u) kv) ?m"
    using inv by (intro filter_keys_of_matches) (simp add: srv_inv_def)
  ultimately have del: "deliver (user_id u) c ?m st = (?st1, None)"
    by (simp only:)
  have "\<not> headersSent ?st1 res"
    using res by (auto simp add: headersSent_def)
  then have "received res ?st1 = (?st1\<lparr>sent := sent ?st1 @ [(res, (200, TextBody ''Response received''))]\<rparr>, None)"
    by (simp add: received_def send_reply_ok)
  with del user show ?thesis
    by (simp add: logResponse_def)
qed

lemma wake_live:
  assumes "map_of (alarmMap st) (p_key p) = Some v" and "\<not> headersSent st (sink (p_entry p))"
  shows "confirmAlarm_wake st p =
     (st\<lparr>alarmMap := AList.delete (p_key p) (alarmMap st),
         sent := sent st @ [(sink (p_entry p), timeout_reply (p_entry p))]\<rparr>, None)"
  using assms by (simp add: confirmAlarm_wake_def Let_def send_reply_ok timeout_reply_def)

lemma wake_absent:
  "map_of (alarmMap st) (p_key p) = None \<Longrightarrow> confirmAlarm_wake st p = (st, None)"
  by (simp add: confirmAlarm_wake_def)

lemma wake_stale:
  assumes "map_of (alarmMap st) (p_key p) = Some v" and "headersSent st (sink (p_entry p))"
  shows "confirmAlarm_wake st p =
     (st\<lparr>alarmMap := AList.delete (p_key p) (alarmMap st)\<rparr>, Some ERR_HTTP_HEADERS_SENT)"
  using assms by (simp add: confirmAlarm_wake_def Let_def send_reply_refused)

lemma begin_stores:
  assumes "confirmAlarm_lookup d a = Inr (alarm, subs)"
  shows "confirmAlarm_begin lit tz d send st res a t =
     \<lparr>after = st\<lparr>alarmMap := AList.update (key_of lit alarm t) (stored tz send res t alarm subs) (alarmMap st)\<rparr>,
      pushes = map (\<lambda>s. (to_sub s, prompt tz alarm t)) subs,
      suspended = Some \<lparr>p_key = key_of lit alarm t, p_entry = stored tz send res t alarm subs, p_timer = 15000\<rparr>,
      raised = None\<rparr>"
  using assms
  by (simp add: confirmAlarm_begin_def Let_def fanOut_fan0 stored_def key_of_def delay_def)

lemma begin_refuses:
  assumes "confirmAlarm_lookup d a = Inl rep" and "\<not> headersSent st res"
  shows "confirmAlarm_begin lit tz d send st res a t =
     \<lparr>after = st\<lparr>sent := sent st @ [(res, rep)]\<rparr>, pushes = [], suspended = None, raised = None\<rparr>"
  using assms by (simp add: confirmAlarm_begin_def send_reply_ok)

section \<open>Invariants of the running server\<close>

lemma set_update_subset: "set (AList.update k v m) \<subseteq> insert (k, v) (set m)"
  by (induction m) auto

lemma sinks_update:
  assumes "distinct (map (\<lambda>kv. sink (snd kv)) m)" and "sink v \<notin> (\<lambda>kv. sink (snd kv)) ` set m"
  shows "distinct (map (\<lambda>kv. sink (snd kv)) (AList.update k v m))"
  using assms
proof (induction m)
  case Nil
  then show ?case by simp
next
  case (Cons a m)
  have "(\<lambda>kv. sink (snd kv)) ` set (AList.update k v m) \<subseteq> insert (sink v) ((\<lambda>kv. sink (snd kv)) ` set m)"
    using set_update_subset [of k v m] by auto
  with Cons show ?case by auto
qed

lemma distinct_map_remove1:
  "distinct (map f xs) \<Longrightarrow> distinct (map f (remove1 x xs))"
  by (auto simp add: distinct_map intro: inj_on_diff)

lemma in_remove1_distinct_map:
  assumes "distinct (map f xs)" and "y \<in> set (remove1 x xs)" and "x \<in> set xs"
  shows "f y \<noteq> f x"
  using assms
proof (induction xs)
  case Nil
  then show ?case by simp
next
  case (Cons a xs)
  then show ?case by (auto split: if_splits dest: notin_set_remove1 simp: image_iff)
qed

lemma find_sleeping:
  "find P xs = Some p \<Longrightarrow> p \<in> set xs \<and> P p"
  by (induction xs) (auto split: if_splits)

text \<open>The sinks of the entries are among the sinks of the suspended handlers.\<close>

lemma owned_sink:
  assumes "owned c" and "kv \<in> set (alarmMap (srv c))"
  shows "sink (snd kv) \<in> (\<lambda>p. sink (p_entry p)) ` set (sleeping c)"
  using assms by (force simp add: owned_def)

lemma fresh_not_stored:
  assumes "owned c" and "fresh c r"
  shows "r \<notin> (\<lambda>kv. sink (snd kv)) ` set (alarmMap (srv c))"
  using assms owned_sink [OF assms(1)] by (auto simp add: fresh_def)

lemma wake_alarmMap:
  "alarmMap (fst (confirmAlarm_wake st p)) = AList.delete (p_key p) (alarmMap st)"
proof (cases "map_of (alarmMap st) (p_key p)")
  case None
  then have "p_key p \<notin> fst ` set (alarmMap st)"
    by (simp add: map_of_eq_None_iff)
  with None show ?thesis by (simp add: wake_absent)
next
  case (Some v)
  then show ?thesis
    by (cases "headersSent st (sink (p_entry p))") (simp_all add: wake_live wake_stale)
qed

lemma wake_sent:
  "headersSent (fst (confirmAlarm_wake st p)) r \<Longrightarrow> headersSent st r \<or> r = sink (p_entry p)"
  by (cases "map_of (alarmMap st) (p_key p)"; cases "headersSent st (sink (p_entry p))")
     (auto simp add: wake_live wake_stale wake_absent headersSent_def)

lemma inv1_boot: "inv1 boot"
  by (simp add: inv1_def srv_inv_def owned_def boot_def)

lemma inv1_confirm:
  assumes inv: "inv1 c" and fr: "fresh c res"
  shows "inv1 (step lit c (Confirm tz d send res a t))"
proof (cases "confirmAlarm_lookup d a")
  case (Inl rep)
  have silent: "\<not> headersSent (srv c) res" using fr by (simp add: fresh_def)
  have ns: "res \<notin> (\<lambda>kv. sink (snd kv)) ` set (alarmMap (srv c))"
    using inv fr by (intro fresh_not_stored) (simp_all add: inv1_def)
  have st: "step lit c (Confirm tz d send res a t) =
      c\<lparr>srv := (srv c)\<lparr>sent := sent (srv c) @ [(res, rep)]\<rparr>,
        sleeping := sleeping c, rejections := rejections c\<rparr>"
    by (simp add: begin_refuses [OF Inl silent] thrown_def)
  show ?thesis
    unfolding st using inv ns
    by (auto simp add: inv1_def srv_inv_def owned_def)
next
  case (Inr r)
  obtain alarm subs where r: "r = (alarm, subs)" by (cases r)
  let ?k = "key_of lit alarm t" and ?v = "stored tz send res t alarm subs"
  let ?p = "\<lparr>p_key = ?k, p_entry = ?v, p_timer = 15000\<rparr>"
  have silent: "\<not> headersSent (srv c) res" using fr by (simp add: fresh_def)
  have ns: "res \<notin> (\<lambda>kv. sink (snd kv)) ` set (alarmMap (srv c))"
    using inv fr by (intro fresh_not_stored) (simp_all add: inv1_def)
  have sv: "sink ?v = res" by (simp add: stored_def)
  have st: "step lit c (Confirm tz d send res a t) =
      c\<lparr>srv := (srv c)\<lparr>alarmMap := AList.update ?k ?v (alarmMap (srv c))\<rparr>,
        sleeping := sleeping c @ [?p], rejections := rejections c\<rparr>"
    using Inr r by (simp add: begin_stores thrown_def)
  have sub: "set (AList.update ?k ?v (alarmMap (srv c))) \<subseteq> insert (?k, ?v) (set (alarmMap (srv c)))"
    by (rule set_update_subset)
  have 1: "distinct (map fst (AList.update ?k ?v (alarmMap (srv c))))"
    using inv by (intro distinct_update) (simp add: inv1_def srv_inv_def)
  have 2: "distinct (map (\<lambda>kv. sink (snd kv)) (AList.update ?k ?v (alarmMap (srv c))))"
    using inv ns by (intro sinks_update) (simp_all add: inv1_def srv_inv_def sv)
  have 3: "\<forall>kv \<in> set (AList.update ?k ?v (alarmMap (srv c))). \<not> headersSent (srv c) (sink (snd kv))"
    using sub inv silent sv by (auto simp add: inv1_def srv_inv_def)
  have 4: "\<forall>kv \<in> set (AList.update ?k ?v (alarmMap (srv c))).
             \<exists>p \<in> set (sleeping c @ [?p]). p_key p = fst kv \<and> p_entry p = snd kv"
  proof
    fix kv assume "kv \<in> set (AList.update ?k ?v (alarmMap (srv c)))"
    with sub have "kv = (?k, ?v) \<or> kv \<in> set (alarmMap (srv c))" by auto
    then show "\<exists>p \<in> set (sleeping c @ [?p]). p_key p = fst kv \<and> p_entry p = snd kv"
    proof
      assume "kv = (?k, ?v)"
      then show ?thesis by simp
    next
      assume "kv \<in> set (alarmMap (srv c))"
      with inv obtain p where "p \<in> set (sleeping c)" "p_key p = fst kv" "p_entry p = snd kv"
        by (auto simp add: inv1_def owned_def)
      then show ?thesis by auto
    qed
  qed
  have 5: "distinct (map (\<lambda>p. sink (p_entry p)) (sleeping c @ [?p]))"
    using inv fr sv by (auto simp add: inv1_def fresh_def)
  show ?thesis
    unfolding st using 1 2 3 4 5
    by (simp add: inv1_def srv_inv_def owned_def)
qed

lemma inv1_wake:
  assumes inv: "inv1 c"
  shows "inv1 (step lit c (Wake res))"
proof (cases "find (\<lambda>p. sink (p_entry p) = res) (sleeping c)")
  case None
  with inv show ?thesis by simp
next
  case (Some p)
  then have p: "p \<in> set (sleeping c)" by (auto dest: find_sleeping)
  let ?st' = "fst (confirmAlarm_wake (srv c) p)"
  let ?m = "alarmMap (srv c)"
  have st: "step lit c (Wake res) =
      c\<lparr>srv := ?st', sleeping := remove1 p (sleeping c),
        rejections := rejections c @ thrown (snd (confirmAlarm_wake (srv c) p))\<rparr>"
    using Some by simp
  have m': "alarmMap ?st' = filter (\<lambda>kv. fst kv \<noteq> p_key p) ?m"
    by (simp add: wake_alarmMap delete_as_filter)
  have dsl: "distinct (map (\<lambda>p. sink (p_entry p)) (sleeping c))"
    using inv by (simp add: inv1_def)
  have other: "\<exists>q \<in> set (remove1 p (sleeping c)). p_key q = fst kv \<and> p_entry q = snd kv"
    if "kv \<in> set ?m" "fst kv \<noteq> p_key p" for kv
  proof -
    from inv that(1) obtain q where q: "q \<in> set (sleeping c)" "p_key q = fst kv" "p_entry q = snd kv"
      by (auto simp add: inv1_def owned_def)
    with that(2) have "q \<noteq> p" by auto
    with q show ?thesis by auto
  qed
  have 1: "distinct (map fst (alarmMap ?st'))"
    using inv by (simp add: m' inv1_def srv_inv_def distinct_map_filter)
  have 2: "distinct (map (\<lambda>kv. sink (snd kv)) (alarmMap ?st'))"
    using inv by (simp add: m' inv1_def srv_inv_def distinct_map_filter)
  have 3: "\<forall>kv \<in> set (alarmMap ?st'). \<not> headersSent ?st' (sink (snd kv))"
  proof
    fix kv assume "kv \<in> set (alarmMap ?st')"
    then have kv: "kv \<in> set ?m" "fst kv \<noteq> p_key p" by (simp_all add: m')
    from other [OF kv] obtain q where q: "q \<in> set (remove1 p (sleeping c))" "p_entry q = snd kv"
      by auto
    have ne: "sink (snd kv) \<noteq> sink (p_entry p)"
      using in_remove1_distinct_map [OF dsl q(1) p] q(2) by simp
    have "\<not> headersSent (srv c) (sink (snd kv))"
      using inv kv(1) by (simp add: inv1_def srv_inv_def)
    with ne show "\<not> headersSent ?st' (sink (snd kv))"
      using wake_sent [of "srv c" p "sink (snd kv)"] by auto
  qed
  have 4: "\<forall>kv \<in> set (alarmMap ?st').
             \<exists>q \<in> set (remove1 p (sleeping c)). p_key q = fst kv \<and> p_entry q = snd kv"
    using other by (simp add: m')
  have 5: "distinct (map (\<lambda>p. sink (p_entry p)) (remove1 p (sleeping c)))"
    using dsl by (rule distinct_map_remove1)
  show ?thesis
    unfolding st using 1 2 3 4 5
    by (simp add: inv1_def srv_inv_def owned_def)
qed

lemma logResponse_no_user:
  "findOne (user_table d) (\<lambda>u. username u = name) = Inl e \<Longrightarrow>
     logResponse d st res name cf = (st, Some e)"
  "findOne (user_table d) (\<lambda>u. username u = name) = Inr None \<Longrightarrow>
     logResponse d st res name cf = (st, Some TypeError)"
  by (simp_all add: logResponse_def)

lemma findOne_cases:
  obtains e where "findOne tab wh = Inl e" "e = SequelizeError"
  | "findOne tab wh = Inr None"
  | u where "findOne tab wh = Inr (Some u)"
proof (cases tab)
  case (Rows rows)
  then show ?thesis using that(2,3) by (cases "find wh rows") simp_all
next
  case Unavailable
  then show ?thesis using that(1) by simp
qed

lemma inv1_response:
  assumes inv: "inv1 c" and fr: "fresh c res"
  shows "inv1 (step lit c (Response d res name cf))"
proof (cases rule: findOne_cases [of "user_table d" "\<lambda>u. username u = name"])
  case (1 e)
  then show ?thesis using inv by (simp add: logResponse_no_user inv1_def owned_def)
next
  case 2
  then show ?thesis using inv by (simp add: logResponse_no_user inv1_def owned_def)
next
  case (3 u)
  let ?m = "alarmMap (srv c)"
  let ?yes = "filter (of_user (user_id u)) ?m"
  have silent: "\<not> headersSent (srv c) res" using fr by (simp add: fresh_def)
  have ns: "res \<notin> (\<lambda>kv. sink (snd kv)) ` set ?m"
    using inv fr by (intro fresh_not_stored) (simp_all add: inv1_def)
  have sinv: "srv_inv (srv c)" using inv by (simp add: inv1_def)
  note eff = logResponse_effect [OF sinv 3 silent ns, of cf]
  have dm: "distinct (map (\<lambda>kv. sink (snd kv)) ?m)" using sinv by (simp add: srv_inv_def)
  have 3: "sink (snd kv) \<notin> (\<lambda>kv. sink (snd kv)) ` set ?yes"
    if "kv \<in> set ?m" "\<not> of_user (user_id u) kv" for kv
  proof
    assume "sink (snd kv) \<in> (\<lambda>kv. sink (snd kv)) ` set ?yes"
    then obtain kv' where kv': "kv' \<in> set ?m" "of_user (user_id u) kv'" "sink (snd kv') = sink (snd kv)"
      by auto
    from dm have "inj_on (\<lambda>kv. sink (snd kv)) (set ?m)" by (simp add: distinct_map)
    with kv'(1,3) that(1) have "kv' = kv" by (auto dest: inj_onD)
    with kv'(2) that(2) show False by simp
  qed
  show ?thesis
    using inv sinv ns 3
    by (auto simp add: eff inv1_def srv_inv_def owned_def distinct_map_filter headersSent_def image_iff)
qed

lemma inv1_step: "inv1 c \<Longrightarrow> admitted c ev \<Longrightarrow> inv1 (step lit c ev)"
  by (cases ev) (simp_all only: admitted.simps inv1_confirm inv1_wake inv1_response)

lemma run_Cons: "run lit c (ev # evs) = run lit (step lit c ev) evs"
  by (simp add: run_def)

lemma inv1_run: "inv1 c \<Longrightarrow> valid lit c evs \<Longrightarrow> inv1 (run lit c evs)"
proof (induction evs arbitrary: c)
  case Nil
  then show ?case by (simp add: run_def)
next
  case (Cons ev evs)
  then show ?case by (simp add: run_Cons inv1_step)
qed

lemma map_of_filter_distinct:
  assumes "distinct (map fst m)" and "map_of m k = Some v"
  shows "map_of (filter P m) k = (if P (k, v) then Some v else None)"
  using assms
proof (induction m)
  case Nil
  then show ?case by simp
next
  case (Cons a m)
  show ?case
  proof (cases "fst a = k")
    case True
    with Cons.prems have a: "a = (k, v)" by (cases a) simp
    have "k \<notin> fst ` set (filter P m)" using Cons.prems(1) True by auto
    then have "map_of (filter P m) k = None" by (simp add: map_of_eq_None_iff)
    with a show ?thesis by simp
  next
    case False
    with Cons show ?thesis by (cases a) auto
  qed
qed

lemma map_of_filter_None:
  "map_of m k = None \<Longrightarrow> map_of (filter P m) k = None"
  by (auto simp add: map_of_eq_None_iff)

lemma thrown_None [simp]: "thrown None = []"
  by (simp add: thrown_def)

lemma thrown_Some [simp]: "thrown (Some e) = [e]"
  by (simp add: thrown_def)

section \<open>The response correlator\<close>

text \<open>
  Claim C4. A \<open>logResponse\<close> call of a user the store knows sends
  \<open>{confirmed, location, totalSubscriptions, successfulNotifications, errors}\<close>, with the
  caller's \<open>confirmed\<close> and the other four values of the entry, to the response object of
  every entry whose owner is that user, in map order, and deletes exactly these entries;
  the entries of other users stay as they are, in their order. The server state is
  well-formed (\<open>srv_inv\<close>, which every reachable state is) and the call has a response
  object of its own.
\<close>

theorem logResponse_answers_all_of_user:
  assumes "srv_inv st"
    and "findOne (user_table d) (\<lambda>u. username u = name) = Inr (Some u)"
    and "\<not> headersSent st res"
    and "res \<notin> (\<lambda>kv. sink (snd kv)) ` set (alarmMap st)"
  shows "logResponse d st res name confirmed =
     (st\<lparr>alarmMap := filter (\<lambda>kv. ownerUserId (snd kv) \<noteq> user_id u) (alarmMap st),
         sent := sent st
           @ map (\<lambda>kv. (sink (snd kv),
                        (200, ConfirmBody confirmed (location (snd kv)) (totalSubscriptions (snd kv))
                                (successes (snd kv)) (failures (snd kv)))))
               (filter (\<lambda>kv. ownerUserId (snd kv) = user_id u) (alarmMap st))
           @ [(res, (200, TextBody ''Response received''))]\<rparr>,
      None)"
  using logResponse_effect [OF assms, of confirmed]
  unfolding of_user_def [abs_def] answer_def .

lemma find_ann:
  "findOne (user_table home) (\<lambda>u. username u = ''ann'') = Inr (Some \<lparr>user_id = 7, username = ''ann''\<rparr>)"
  by (simp add: home_def)


lemma srv_inv_busy: "srv_inv busy"
  by (simp add: srv_inv_def busy_def kitchen_def garage_def headersSent_def)

theorem logResponse_answers_all_of_user_witness:
  "srv_inv busy
   \<and> findOne (user_table home) (\<lambda>u. username u = ''ann'') = Inr (Some \<lparr>user_id = 7, username = ''ann''\<rparr>)
   \<and> \<not> headersSent busy 21 \<and> 21 \<notin> (\<lambda>kv. sink (snd kv)) ` set (alarmMap busy)
   \<and> logResponse home busy 21 ''ann'' (JBool False) =
       (\<lparr>alarmMap = [(''2-1700000001'', garage)],
         sent = [(11, (200, ConfirmBody (JBool False) ''Kitchen'' 2 1 [''Error occurred when sending notification''])),
                 (13, (200, ConfirmBody (JBool False) ''Kitchen'' 2 1 [''Error occurred when sending notification''])),
                 (21, (200, TextBody ''Response received''))]\<rparr>, None)"
proof -
  have 1: "\<not> headersSent busy 21" by (simp add: headersSent_def busy_def)
  have 2: "21 \<notin> (\<lambda>kv. sink (snd kv)) ` set (alarmMap busy)"
    by (simp add: busy_def kitchen_def garage_def)
  note r = logResponse_answers_all_of_user [OF srv_inv_busy find_ann 1 2, of "JBool False"]
  have "logResponse home busy 21 ''ann'' (JBool False) =
       (\<lparr>alarmMap = [(''2-1700000001'', garage)],
         sent = [(11, (200, ConfirmBody (JBool False) ''Kitchen'' 2 1 [''Error occurred when sending notification''])),
                 (13, (200, ConfirmBody (JBool False) ''Kitchen'' 2 1 [''Error occurred when sending notification''])),
                 (21, (200, TextBody ''Response received''))]\<rparr>, None)"
    unfolding r by (simp add: busy_def kitchen_def garage_def)
  with srv_inv_busy find_ann 1 2 show ?thesis by (simp only: simp_thms)
qed

lemma stored_kitchen: "stored 0 flaky 11 1700000000 alarm1 [phone, tablet] = kitchen"
  by (simp add: stored_def failed_flaky kitchen_def alarm1_def userId_of_def)

lemma first_confirm:
  "step int_str boot (Confirm 0 home flaky 11 ''A1'' 1700000000) =
     \<lparr>srv = \<lparr>alarmMap = [(key_of int_str alarm1 1700000000, kitchen)], sent = []\<rparr>,
      sleeping = [\<lparr>p_key = key_of int_str alarm1 1700000000, p_entry = kitchen, p_timer = 15000\<rparr>],
      rejections = []\<rparr>"
  by (simp add: begin_stores [OF lookup_home] stored_kitchen boot_def Let_def)





section \<open>Requests that are refused\<close>

text \<open>
  Claim C7. When the alarm query finds no row for the serial, or the first row has no
  user (\<open>null\<close> or \<open>0\<close>), or the subscription query finds no row for that user,
  \<open>confirmAlarm\<close> replies 404 with the matching message and does nothing else: no push was
  made, the map is as it was, and no handler is left suspended.
\<close>

theorem confirmAlarm_not_found:
  assumes "findAll (alarm_table d) (\<lambda>a. alarmSerial a = alarmId) = Inr alarms"
    and "alarms = [] \<or> falsy (alarm_userId (hd alarms))
         \<or> findAll (subscription_table d) (\<lambda>s. Some (sub_userId s) = alarm_userId (hd alarms)) = Inr []"
    and "\<not> headersSent st res"
  shows "confirmAlarm_begin lit tz d send st res alarmId t =
     \<lparr>after = st\<lparr>sent := sent st @
         [(res, (404, ErrorBody
            (if alarms = [] then ''Couldn't find alarm with provided alarm ID''
             else if falsy (alarm_userId (hd alarms)) then ''Alarm doesn't have a user assigned''
             else ''Couldn't find user in subscriptions'')))]\<rparr>,
      pushes = [], suspended = None, raised = None\<rparr>"
proof (cases alarms)
  case Nil
  then have "confirmAlarm_lookup d alarmId = Inl (404, ErrorBody ''Couldn't find alarm with provided alarm ID'')"
    using assms(1) by (simp add: confirmAlarm_lookup_def)
  from begin_refuses [OF this assms(3)] Nil show ?thesis by simp
next
  case (Cons alarm rest)
  show ?thesis
  proof (cases "falsy (alarm_userId alarm)")
    case True
    then have "confirmAlarm_lookup d alarmId = Inl (404, ErrorBody ''Alarm doesn't have a user assigned'')"
      using assms(1) Cons by (simp add: confirmAlarm_lookup_def)
    from begin_refuses [OF this assms(3)] Cons True show ?thesis by simp
  next
    case False
    with assms(2) Cons
    have "findAll (subscription_table d) (\<lambda>s. Some (sub_userId s) = alarm_userId alarm) = Inr []"
      by simp
    then have "confirmAlarm_lookup d alarmId = Inl (404, ErrorBody ''Couldn't find user in subscriptions'')"
      using assms(1) Cons False by (simp add: confirmAlarm_lookup_def)
    from begin_refuses [OF this assms(3)] Cons False show ?thesis by simp
  qed
qed

lemma silent_boot: "\<not> headersSent (srv boot) r"
  by (simp add: boot_def headersSent_def)

theorem confirmAlarm_not_found_witness:
  "confirmAlarm_begin int_str 0 home flaky (srv boot) 11 ''A9'' 1700000000 =
     \<lparr>after = \<lparr>alarmMap = [], sent = [(11, (404, ErrorBody ''Couldn't find alarm with provided alarm ID''))]\<rparr>,
      pushes = [], suspended = None, raised = None\<rparr>
   \<and> confirmAlarm_begin int_str 0 home flaky (srv boot) 11 ''A2'' 1700000000 =
     \<lparr>after = \<lparr>alarmMap = [], sent = [(11, (404, ErrorBody ''Alarm doesn't have a user assigned''))]\<rparr>,
      pushes = [], suspended = None, raised = None\<rparr>
   \<and> confirmAlarm_begin int_str 0 home flaky (srv boot) 11 ''A3'' 1700000000 =
     \<lparr>after = \<lparr>alarmMap = [], sent = [(11, (404, ErrorBody ''Couldn't find user in subscriptions''))]\<rparr>,
      pushes = [], suspended = None, raised = None\<rparr>"
proof -
  have a9: "findAll (alarm_table home) (\<lambda>a. alarmSerial a = ''A9'') = Inr []"
    by (simp add: home_def alarm1_def)
  have a2: "findAll (alarm_table home) (\<lambda>a. alarmSerial a = ''A2'') =
      Inr [\<lparr>alarm_id = 2, alarmSerial = ''A2'', alarm_userId = None, alarm_location = ''Garage''\<rparr>]"
    by (simp add: home_def alarm1_def)
  have a3: "findAll (alarm_table home) (\<lambda>a. alarmSerial a = ''A3'') =
      Inr [\<lparr>alarm_id = 3, alarmSerial = ''A3'', alarm_userId = Some 8, alarm_location = ''Attic''\<rparr>]"
    by (simp add: home_def alarm1_def)
  have s3: "findAll (subscription_table home) (\<lambda>s. Some (sub_userId s) = Some 8) = Inr []"
    by (simp add: home_def phone_def tablet_def)
  show ?thesis
    using confirmAlarm_not_found [where res = 11 and tz = 0 and send = flaky and t = 1700000000, OF a9 _ silent_boot]
      confirmAlarm_not_found [where res = 11 and tz = 0 and send = flaky and t = 1700000000, OF a2 _ silent_boot]
      confirmAlarm_not_found [where res = 11 and tz = 0 and send = flaky and t = 1700000000, OF a3 _ silent_boot] s3
    by (simp add: falsy_def boot_def)
qed

section \<open>No response object replies twice\<close>

lemma send_reply_distinct:
  "distinct (map fst (sent st)) \<Longrightarrow> send_reply r rep st = Inr st' \<Longrightarrow> distinct (map fst (sent st'))"
  by (auto simp add: send_reply_def headersSent_def split: if_splits)

lemma deliver_distinct:
  "distinct (map fst (sent st)) \<Longrightarrow> distinct (map fst (sent (fst (deliver uid c xs st))))"
proof (induction xs arbitrary: st)
  case Nil
  then show ?case by simp
next
  case (Cons kv rest)
  obtain key v where kv: "kv = (key, v)" by (cases kv)
  show ?case
  proof (cases "ownerUserId v = uid")
    case False
    with Cons kv show ?thesis by simp
  next
    case True
    show ?thesis
    proof (cases "send_reply (sink v) (answer c v) st")
      case (Inl e)
      with True kv Cons.prems show ?thesis by simp
    next
      case (Inr st')
      have "distinct (map fst (sent (st'\<lparr>alarmMap := AList.delete key (alarmMap st')\<rparr>)))"
        using send_reply_distinct [OF Cons.prems Inr] by simp
      from Cons.IH [OF this] True kv Inr show ?thesis by simp
    qed
  qed
qed

lemma received_distinct:
  "distinct (map fst (sent st)) \<Longrightarrow> distinct (map fst (sent (fst (received res st))))"
  by (cases "send_reply res (200, TextBody ''Response received'') st")
     (auto simp add: received_def dest: send_reply_distinct)

lemma logResponse_distinct:
  assumes "distinct (map fst (sent st))"
  shows "distinct (map fst (sent (fst (logResponse d st res name c))))"
proof (cases rule: findOne_cases [of "user_table d" "\<lambda>u. username u = name"])
  case (1 e)
  with assms show ?thesis by (simp add: logResponse_no_user)
next
  case 2
  with assms show ?thesis by (simp add: logResponse_no_user)
next
  case (3 u)
  obtain st1 x where dl: "deliver (user_id u) c (alarmMap st) st = (st1, x)"
    by (cases "deliver (user_id u) c (alarmMap st) st")
  have d1: "distinct (map fst (sent st1))"
    using deliver_distinct [OF assms, of "user_id u" c "alarmMap st"] dl by simp
  show ?thesis
  proof (cases x)
    case None
    with 3 dl received_distinct [OF d1, of res] show ?thesis by (simp add: logResponse_def)
  next
    case (Some e)
    show ?thesis
    proof (cases "send_reply res (500, ErrorsBody ''Error occurred confirming alarm.'') st1")
      case (Inl e')
      with 3 dl Some d1 show ?thesis by (simp add: logResponse_def)
    next
      case (Inr st2)
      from send_reply_distinct [OF d1 Inr] have "distinct (map fst (sent st2))" .
      from received_distinct [OF this, of res] 3 dl Some Inr show ?thesis
        by (simp add: logResponse_def)
    qed
  qed
qed

lemma wake_distinct:
  assumes "distinct (map fst (sent st))"
  shows "distinct (map fst (sent (fst (confirmAlarm_wake st p))))"
proof (cases "map_of (alarmMap st) (p_key p)")
  case None
  with assms show ?thesis by (simp add: wake_absent)
next
  case (Some v)
  show ?thesis
  proof (cases "headersSent st (sink (p_entry p))")
    case True
    with Some assms show ?thesis by (simp add: wake_stale)
  next
    case False
    with Some assms show ?thesis by (simp add: wake_live headersSent_def)
  qed
qed

lemma begin_distinct:
  assumes "distinct (map fst (sent st))"
  shows "distinct (map fst (sent (after (confirmAlarm_begin lit tz d send st res a t))))"
proof (cases "confirmAlarm_lookup d a")
  case (Inl rep)
  show ?thesis
  proof (cases "headersSent st res")
    case True
    with Inl assms show ?thesis by (simp add: confirmAlarm_begin_def send_reply_refused)
  next
    case False
    with Inl assms show ?thesis by (simp add: begin_refuses headersSent_def)
  qed
next
  case (Inr r)
  then obtain alarm subs where "confirmAlarm_lookup d a = Inr (alarm, subs)" by (cases r) simp
  with assms show ?thesis by (simp add: begin_stores)
qed

lemma step_distinct:
  "distinct (map fst (sent (srv c))) \<Longrightarrow> distinct (map fst (sent (srv (step lit c ev))))"
proof (cases ev)
  case (Confirm tz d send res a t)
  assume "distinct (map fst (sent (srv c)))"
  then show ?thesis unfolding Confirm by (simp add: begin_distinct Let_def)
next
  case (Wake res)
  assume "distinct (map fst (sent (srv c)))"
  then show ?thesis unfolding Wake by (simp add: wake_distinct split: option.splits)
next
  case (Response d res name cf)
  assume "distinct (map fst (sent (srv c)))"
  then show ?thesis unfolding Response by (simp add: logResponse_distinct)
qed

lemma run_distinct:
  "distinct (map fst (sent (srv c))) \<Longrightarrow> distinct (map fst (sent (srv (run lit c evs))))"
  by (induction evs arbitrary: c) (simp_all add: run_def step_distinct del: step.simps)

section \<open>Two requests under one key\<close>

lemma lookup_first_row:
  assumes "confirmAlarm_lookup d a = Inr (alarm, subs)"
  shows "\<exists>rest. findAll (alarm_table d) (\<lambda>x. alarmSerial x = a) = Inr (alarm # rest)"
  using assms
  by (auto simp add: confirmAlarm_lookup_def split: sum.splits list.splits if_splits)

lemma lookup_same_alarm:
  assumes "confirmAlarm_lookup d1 a = Inr (alarm, subs1)"
    and "confirmAlarm_lookup d2 a = Inr (alarm', subs2)"
    and "alarm_table d2 = alarm_table d1"
  shows "alarm' = alarm"
  using lookup_first_row [OF assms(1)] lookup_first_row [OF assms(2)] assms(3) by auto

text \<open>
  Claim C8. Two \<open>confirmAlarm\<close> calls for the same alarm serial and timestamp, against the
  same alarm table, compute the same key. The second call is not refused: it throws
  nothing and sends no reply, neither 400 nor 409. It replaces the first call's entry
  under the shared key, in place, so that the map has the keys it had and the first
  entry is in it no more.
\<close>

theorem duplicate_key_overwrites:
  assumes "confirmAlarm_lookup d1 alarmId = Inr (alarm, subs1)"
    and "confirmAlarm_lookup d2 alarmId = Inr (alarm', subs2)"
    and "alarm_table d2 = alarm_table d1"
  shows "\<exists>p1 p2.
       suspended (confirmAlarm_begin lit tz1 d1 send1 st res1 alarmId t) = Some p1
     \<and> suspended (confirmAlarm_begin lit tz2 d2 send2
                    (after (confirmAlarm_begin lit tz1 d1 send1 st res1 alarmId t)) res2 alarmId t) = Some p2
     \<and> sink (p_entry p1) = res1 \<and> sink (p_entry p2) = res2
     \<and> p_key p2 = p_key p1
     \<and> map_of (alarmMap (after (confirmAlarm_begin lit tz1 d1 send1 st res1 alarmId t))) (p_key p1)
           = Some (p_entry p1)
     \<and> map_of (alarmMap (after (confirmAlarm_begin lit tz2 d2 send2
                    (after (confirmAlarm_begin lit tz1 d1 send1 st res1 alarmId t)) res2 alarmId t))) (p_key p1)
           = Some (p_entry p2)
     \<and> map fst (alarmMap (after (confirmAlarm_begin lit tz2 d2 send2
                    (after (confirmAlarm_begin lit tz1 d1 send1 st res1 alarmId t)) res2 alarmId t)))
           = map fst (alarmMap (after (confirmAlarm_begin lit tz1 d1 send1 st res1 alarmId t)))
     \<and> raised (confirmAlarm_begin lit tz2 d2 send2
                    (after (confirmAlarm_begin lit tz1 d1 send1 st res1 alarmId t)) res2 alarmId t) = None
     \<and> sent (after (confirmAlarm_begin lit tz2 d2 send2
                    (after (confirmAlarm_begin lit tz1 d1 send1 st res1 alarmId t)) res2 alarmId t)) = sent st"
proof -
  have same: "alarm' = alarm" by (rule lookup_same_alarm [OF assms])
  note b1 = begin_stores [OF assms(1), of lit tz1 send1 st res1 t]
  note b2 = begin_stores [OF assms(2) [unfolded same], of lit tz2 send2 _ res2 t]
  show ?thesis
    unfolding b1 outcome.simps b2
    by (simp add: update_conv' update_keys dom_update stored_def)
qed

lemma stored_kitchen2:
  "stored 0 steady 13 t alarm1 [phone, tablet] = kitchen\<lparr>sink := 13, successes := 2, failures := []\<rparr>"
  by (simp add: stored_def failed_def steady_def kitchen_def alarm1_def userId_of_def)

text \<open>The household's alarm confirmed twice for the same second, on response objects 11 and 13.\<close>

theorem duplicate_key_overwrites_witness:
  "confirmAlarm_lookup home ''A1'' = Inr (alarm1, [phone, tablet])
   \<and> alarm_table home = alarm_table home
   \<and> alarmMap (after (confirmAlarm_begin int_str 0 home flaky (srv boot) 11 ''A1'' 1700000000))
        = [(key_of int_str alarm1 1700000000, kitchen)]
   \<and> alarmMap (after (confirmAlarm_begin int_str 0 home steady
        (after (confirmAlarm_begin int_str 0 home flaky (srv boot) 11 ''A1'' 1700000000)) 13 ''A1'' 1700000000))
        = [(key_of int_str alarm1 1700000000, kitchen\<lparr>sink := 13, successes := 2, failures := []\<rparr>)]
   \<and> (\<exists>p1 p2.
       suspended (confirmAlarm_begin int_str 0 home flaky (srv boot) 11 ''A1'' 1700000000) = Some p1
     \<and> suspended (confirmAlarm_begin int_str 0 home steady
                    (after (confirmAlarm_begin int_str 0 home flaky (srv boot) 11 ''A1'' 1700000000)) 13 ''A1'' 1700000000) = Some p2
     \<and> sink (p_entry p1) = 11 \<and> sink (p_entry p2) = 13
     \<and> p_key p2 = p_key p1
     \<and> map_of (alarmMap (after (confirmAlarm_begin int_str 0 home steady
                    (after (confirmAlarm_begin int_str 0 home flaky (srv boot) 11 ''A1'' 1700000000)) 13 ''A1'' 1700000000))) (p_key p1)
           = Some (p_entry p2)
     \<and> raised (confirmAlarm_begin int_str 0 home steady
                    (after (confirmAlarm_begin int_str 0 home flaky (srv boot) 11 ''A1'' 1700000000)) 13 ''A1'' 1700000000) = None
     \<and> sent (after (confirmAlarm_begin int_str 0 home steady
                    (after (confirmAlarm_begin int_str 0 home flaky (srv boot) 11 ''A1'' 1700000000)) 13 ''A1'' 1700000000)) = [])"
proof -
  have m1: "alarmMap (after (confirmAlarm_begin int_str 0 home flaky (srv boot) 11 ''A1'' 1700000000))
        = [(key_of int_str alarm1 1700000000, kitchen)]"
    by (simp add: begin_stores [OF lookup_home] stored_kitchen boot_def)
  have m2: "alarmMap (after (confirmAlarm_begin int_str 0 home steady
        (after (confirmAlarm_begin int_str 0 home flaky (srv boot) 11 ''A1'' 1700000000)) 13 ''A1'' 1700000000))
        = [(key_of int_str alarm1 1700000000, kitchen\<lparr>sink := 13, successes := 2, failures := []\<rparr>)]"
    by (simp add: begin_stores [OF lookup_home] stored_kitchen stored_kitchen2 boot_def)
  have e: "sent (srv boot) = []" by (simp add: boot_def)
  from duplicate_key_overwrites [OF lookup_home lookup_home refl,
      of int_str 0 flaky "srv boot" 11 1700000000 0 steady 13]
  show ?thesis
    using lookup_home m1 m2 e by (simp only: simp_thms) blast
qed





section \<open>The timeout path\<close>

lemma timeout_after_begin:
  assumes "confirmAlarm_lookup d alarmId = Inr (alarm, subs)" and "\<not> headersSent st res"
  shows "\<exists>p. suspended (confirmAlarm_begin lit tz d send st res alarmId t) = Some p
     \<and> p_timer p = 15 * 1000
     \<and> confirmAlarm_wake (after (confirmAlarm_begin lit tz d send st res alarmId t)) p =
         (st\<lparr>alarmMap := AList.delete (p_key p) (alarmMap st),
             sent := sent st @
               [(res, (200, ConfirmBody (JStr ''null'') (alarm_location alarm) (length subs)
                          (length subs - length (failed send (prompt tz alarm t) subs))
                          (replicate (length (failed send (prompt tz alarm t) subs))
                             ''Error occurred when sending notification'')))]\<rparr>, None)"
proof -
  let ?k = "key_of lit alarm t" and ?v = "stored tz send res t alarm subs"
  let ?p = "\<lparr>p_key = ?k, p_entry = ?v, p_timer = 15000\<rparr>"
  let ?st1 = "st\<lparr>alarmMap := AList.update ?k ?v (alarmMap st)\<rparr>"
  note b = begin_stores [OF assms(1), of lit tz send st res t]
  have "confirmAlarm_wake ?st1 ?p =
     (?st1\<lparr>alarmMap := AList.delete ?k (alarmMap ?st1),
           sent := sent ?st1 @ [(sink ?v, timeout_reply ?v)]\<rparr>, None)"
    using assms(2) wake_live [of ?st1 ?p ?v] by (simp add: update_conv' stored_def)
  then show ?thesis
    unfolding b
    by (intro exI [of _ ?p]) (simp add: delete_update_same timeout_reply_def stored_def)
qed

lemma key_home: "key_of int_str alarm1 1700000000 = ''1-1700000000''"
  by (simp add: key_of_def alarm1_def int_str_def nat_str.simps digit_char_def)

lemma key_later: "key_of int_str alarm1 1700000060 = ''1-1700000060''"
  by (simp add: key_of_def alarm1_def int_str_def nat_str.simps digit_char_def)

text \<open>
  Claim C3. For the household's alarm and no response before the timer: the handler is
  suspended on a timer of 15 seconds; when it fires, the entry is removed and the caller
  receives 200 with the location and the fan-out counts of the dispatch, as
  \<open>timeout_after_begin\<close> shows for every alarm that passes the lookup. The \<open>confirmed\<close> field
  of that reply is the four-character string \<open>null\<close>, which is not JSON \<open>null\<close>.
\<close>

theorem timeout_replies_string_null:
  "suspended (confirmAlarm_begin int_str 0 home flaky (srv boot) 11 ''A1'' 1700000000) =
      Some \<lparr>p_key = ''1-1700000000'', p_entry = kitchen, p_timer = 15000\<rparr>
   \<and> confirmAlarm_wake (after (confirmAlarm_begin int_str 0 home flaky (srv boot) 11 ''A1'' 1700000000))
        \<lparr>p_key = ''1-1700000000'', p_entry = kitchen, p_timer = 15000\<rparr> =
      (\<lparr>alarmMap = [],
        sent = [(11, (200, ConfirmBody (JStr ''null'') ''Kitchen'' 2 1
                        [''Error occurred when sending notification'']))]\<rparr>, None)
   \<and> JStr ''null'' \<noteq> JNull"
proof -
  let ?out = "confirmAlarm_begin int_str 0 home flaky (srv boot) 11 ''A1'' 1700000000"
  let ?p = "\<lparr>p_key = ''1-1700000000'', p_entry = kitchen, p_timer = 15000\<rparr>"
  have s: "suspended ?out = Some ?p"
    by (simp add: begin_stores [OF lookup_home] stored_kitchen key_home)
  from timeout_after_begin [OF lookup_home silent_boot, of int_str 0 flaky 11 1700000000]
  obtain p where p: "suspended ?out = Some p"
    "confirmAlarm_wake (after ?out) p =
       ((srv boot)\<lparr>alarmMap := AList.delete (p_key p) (alarmMap (srv boot)),
             sent := sent (srv boot) @
               [(11, (200, ConfirmBody (JStr ''null'') (alarm_location alarm1) (length [phone, tablet])
                          (length [phone, tablet] - length (failed flaky (prompt 0 alarm1 1700000000) [phone, tablet]))
                          (replicate (length (failed flaky (prompt 0 alarm1 1700000000) [phone, tablet]))
                             ''Error occurred when sending notification'')))]\<rparr>, None)"
    by blast
  from p(1) s have "p = ?p" by simp
  with p(2) have "confirmAlarm_wake (after ?out) ?p =
      (\<lparr>alarmMap = [],
        sent = [(11, (200, ConfirmBody (JStr ''null'') ''Kitchen'' 2 1
                        [''Error occurred when sending notification'']))]\<rparr>, None)"
    by (simp add: boot_def failed_flaky alarm1_def numeral_2_eq_2)
  with s show ?thesis by simp
qed

section \<open>The rendezvous\<close>

lemma filter_eq_single:
  "distinct xs \<Longrightarrow> x \<in> set xs \<Longrightarrow> filter (\<lambda>y. y = x) xs = [x]"
  by (induction xs) (auto simp add: filter_empty_conv)

text \<open>
  A \<open>logResponse\<close> of the owner of an entry that is in the map replies on that entry's
  response object, once, and removes the entry.
\<close>

lemma response_answers_entry:
  assumes inv: "inv1 c" and fr: "fresh c res'"
    and user: "findOne (user_table d) (\<lambda>u. username u = name) = Inr (Some u)"
    and mo: "map_of (alarmMap (srv c)) k = Some e" and own: "ownerUserId e = user_id u"
  shows "snd (logResponse d (srv c) res' name cf) = None"
    and "filter (\<lambda>rr. fst rr = sink e) (sent (fst (logResponse d (srv c) res' name cf)))
           = [(sink e, answer cf e)]"
    and "map_of (alarmMap (fst (logResponse d (srv c) res' name cf))) k = None"
proof -
  let ?m = "alarmMap (srv c)"
  let ?uid = "user_id u"
  let ?yes = "filter (of_user ?uid) ?m"
  have sinv: "srv_inv (srv c)" using inv by (simp add: inv1_def)
  have silent': "\<not> headersSent (srv c) res'" using fr by (simp add: fresh_def)
  have ns': "res' \<notin> (\<lambda>kv. sink (snd kv)) ` set ?m"
    using inv fr by (intro fresh_not_stored) (simp_all add: inv1_def)
  note eff = logResponse_effect [OF sinv user silent' ns', of cf]
  from mo have mem: "(k, e) \<in> set ?m" by (rule map_of_SomeD)
  have ov: "of_user ?uid (k, e)" using own by (simp add: of_user_def)
  have dk: "distinct (map fst ?m)" and inj: "inj_on (\<lambda>kv. sink (snd kv)) (set ?m)"
    using sinv by (simp_all add: srv_inv_def distinct_map)
  have silent: "\<not> headersSent (srv c) (sink e)"
    using sinv mem by (force simp add: srv_inv_def)
  have ne: "res' \<noteq> sink e" using ns' mem by force
  have only: "filter (\<lambda>kv. of_user ?uid kv \<and> sink (snd kv) = sink e) ?m = [(k, e)]"
  proof -
    have "filter (\<lambda>kv. of_user ?uid kv \<and> sink (snd kv) = sink e) ?m = filter (\<lambda>kv. kv = (k, e)) ?m"
    proof (rule filter_cong [OF refl])
      fix kv assume kv: "kv \<in> set ?m"
      show "(of_user ?uid kv \<and> sink (snd kv) = sink e) = (kv = (k, e))"
        using inj_onD [OF inj, of kv "(k, e)"] kv mem ov by auto
    qed
    also have "\<dots> = [(k, e)]"
      using dk mem by (intro filter_eq_single) (simp_all add: distinct_map)
    finally show ?thesis .
  qed
  have a: "filter (\<lambda>rr. fst rr = sink e) (sent (srv c)) = []"
    using silent by (force simp add: headersSent_def filter_empty_conv)
  show "snd (logResponse d (srv c) res' name cf) = None"
    by (simp add: eff)
  show "filter (\<lambda>rr. fst rr = sink e) (sent (fst (logResponse d (srv c) res' name cf)))
           = [(sink e, answer cf e)]"
    using a ne by (simp add: eff filter_map o_def only)
  show "map_of (alarmMap (fst (logResponse d (srv c) res' name cf))) k = None"
    using map_of_filter_distinct [OF dk mo, of "\<lambda>kv. \<not> of_user ?uid kv"] ov by (simp add: eff)
qed














section \<open>One completion for every entry\<close>

lemma second_response_noop:
  assumes i1: "inv1 c" and f1: "fresh c r1" and f2: "fresh c r2" and ne: "r1 \<noteq> r2"
    and user: "findOne (user_table d) (\<lambda>x. username x = name) = Inr (Some u)"
  shows "logResponse d (fst (logResponse d (srv c) r1 name c1)) r2 name c2 =
     ((fst (logResponse d (srv c) r1 name c1))
        \<lparr>sent := sent (fst (logResponse d (srv c) r1 name c1))
                   @ [(r2, (200, TextBody ''Response received''))]\<rparr>, None)"
proof -
  let ?m = "alarmMap (srv c)"
  let ?uid = "user_id u"
  let ?st1 = "(srv c)\<lparr>alarmMap := filter (\<lambda>kv. \<not> of_user ?uid kv) ?m,
         sent := sent (srv c) @ map (\<lambda>kv. (sink (snd kv), answer c1 (snd kv))) (filter (of_user ?uid) ?m)
                   @ [(r1, (200, TextBody ''Response received''))]\<rparr>"
  have sinv: "srv_inv (srv c)" using i1 by (simp add: inv1_def)
  have s1: "\<not> headersSent (srv c) r1" and s2: "\<not> headersSent (srv c) r2"
    using f1 f2 by (simp_all add: fresh_def)
  have n1: "r1 \<notin> (\<lambda>kv. sink (snd kv)) ` set ?m" and n2: "r2 \<notin> (\<lambda>kv. sink (snd kv)) ` set ?m"
    using i1 fresh_not_stored [OF _ f1] fresh_not_stored [OF _ f2] by (simp_all add: inv1_def)
  have eff1: "logResponse d (srv c) r1 name c1 = (?st1, None)"
    by (rule logResponse_effect [OF sinv user s1 n1])
  have "inv1 (step lit c (Response d r1 name c1))"
    using i1 f1 by (rule inv1_response)
  then have sinv1: "srv_inv ?st1"
    by (simp add: eff1 inv1_def)
  have s2': "\<not> headersSent ?st1 r2"
    using s2 n2 ne by (auto simp add: headersSent_def)
  have n2': "r2 \<notin> (\<lambda>kv. sink (snd kv)) ` set (alarmMap ?st1)"
    using n2 by auto
  have none: "filter (of_user ?uid) (alarmMap ?st1) = []"
      "filter (\<lambda>kv. \<not> of_user ?uid kv) (alarmMap ?st1) = alarmMap ?st1"
    by (simp_all add: filter_empty_conv)
  from logResponse_effect [OF sinv1 user s2' n2', of c2]
  have "logResponse d ?st1 r2 name c2 =
      (?st1\<lparr>sent := sent ?st1 @ [(r2, (200, TextBody ''Response received''))]\<rparr>, None)"
    unfolding none by simp
  then show ?thesis by (simp add: eff1)
qed

text \<open>
  A handler is found by its response object, and an entry by the response object of its
  handler.
\<close>

lemma sleeping_unique:
  assumes "inv1 c" and "p \<in> set (sleeping c)" and "q \<in> set (sleeping c)"
    and "sink (p_entry q) = sink (p_entry p)"
  shows "q = p"
proof -
  from assms(1) have "inj_on (\<lambda>p. sink (p_entry p)) (set (sleeping c))"
    by (simp add: inv1_def distinct_map)
  with assms(2-4) show ?thesis by (auto dest: inj_onD)
qed

lemma own_entry:
  assumes inv: "inv1 c" and p: "p \<in> set (sleeping c)"
    and kv: "kv \<in> set (alarmMap (srv c))" and s: "sink (snd kv) = sink (p_entry p)"
  shows "kv = (p_key p, p_entry p)"
proof -
  from inv kv obtain q where q: "q \<in> set (sleeping c)" "p_key q = fst kv" "p_entry q = snd kv"
    by (auto simp add: inv1_def owned_def)
  with s have "sink (p_entry q) = sink (p_entry p)" by simp
  from sleeping_unique [OF inv p q(1) this] q(2,3) show ?thesis by (cases kv) auto
qed

text \<open>
  A handler becomes stale only by a \<open>/confirm\<close> request that stores under its key after
  its response object has replied.
\<close>

lemma no_stale_confirm:
  assumes inv: "inv1 c" and fr: "fresh c res"
    and nr: "\<not> restores lit c (Confirm tz d send res a t) p" and ns: "no_stale c p"
  shows "no_stale (step lit c (Confirm tz d send res a t)) p"
proof (cases "confirmAlarm_lookup d a")
  case (Inl rep)
  have silent: "\<not> headersSent (srv c) res" using fr by (simp add: fresh_def)
  have st: "step lit c (Confirm tz d send res a t) =
      c\<lparr>srv := (srv c)\<lparr>sent := sent (srv c) @ [(res, rep)]\<rparr>,
        sleeping := sleeping c, rejections := rejections c\<rparr>"
    by (simp add: begin_refuses [OF Inl silent] thrown_def)
  have "sink (p_entry p) \<noteq> res" if "p \<in> set (sleeping c)"
    using fr that by (auto simp add: fresh_def)
  with ns show ?thesis
    unfolding st by (auto simp add: no_stale_def)
next
  case (Inr r)
  obtain alarm subs where r: "r = (alarm, subs)" by (cases r)
  let ?k = "key_of lit alarm t" and ?v = "stored tz send res t alarm subs"
  let ?p = "\<lparr>p_key = ?k, p_entry = ?v, p_timer = 15000\<rparr>"
  have beg: "confirmAlarm_begin lit tz d send (srv c) res a t =
     \<lparr>after = (srv c)\<lparr>alarmMap := AList.update ?k ?v (alarmMap (srv c))\<rparr>,
      pushes = map (\<lambda>s. (to_sub s, prompt tz alarm t)) subs,
      suspended = Some ?p, raised = None\<rparr>"
    using Inr r by (simp add: begin_stores)
  have st: "step lit c (Confirm tz d send res a t) =
      c\<lparr>srv := (srv c)\<lparr>alarmMap := AList.update ?k ?v (alarmMap (srv c))\<rparr>,
        sleeping := sleeping c @ [?p], rejections := rejections c\<rparr>"
    by (simp add: beg thrown_def)
  have silent: "\<not> headersSent (srv c) res" using fr by (simp add: fresh_def)
  have sv: "sink ?v = res" by (simp add: stored_def)
  have "map_of (AList.update ?k ?v (alarmMap (srv c))) (p_key p) = None"
    if "p \<in> set (sleeping c @ [?p])" and h: "headersSent (srv c) (sink (p_entry p))"
  proof -
    from that silent sv have "p \<noteq> ?p" by auto
    with that(1) have p: "p \<in> set (sleeping c)" by simp
    with ns h have none: "map_of (alarmMap (srv c)) (p_key p) = None" by (simp add: no_stale_def)
    from nr p h have "?k \<noteq> p_key p" by (simp add: beg)
    with none show ?thesis by (simp add: update_conv')
  qed
  then show ?thesis
    unfolding st by (simp add: no_stale_def del: set_append)
qed

lemma no_stale_wake:
  assumes inv: "inv1 c" and ns: "no_stale c p"
  shows "no_stale (step lit c (Wake res)) p"
proof (cases "find (\<lambda>p. sink (p_entry p) = res) (sleeping c)")
  case None
  with ns show ?thesis by simp
next
  case (Some q)
  then have q: "q \<in> set (sleeping c)" by (auto dest: find_sleeping)
  have dsl: "distinct (map (\<lambda>p. sink (p_entry p)) (sleeping c))"
    using inv by (simp add: inv1_def)
  have st: "step lit c (Wake res) =
      c\<lparr>srv := fst (confirmAlarm_wake (srv c) q), sleeping := remove1 q (sleeping c),
        rejections := rejections c @ thrown (snd (confirmAlarm_wake (srv c) q))\<rparr>"
    using Some by simp
  have "map_of (alarmMap (fst (confirmAlarm_wake (srv c) q))) (p_key p) = None"
    if m: "p \<in> set (remove1 q (sleeping c))"
      and h: "headersSent (fst (confirmAlarm_wake (srv c) q)) (sink (p_entry p))"
  proof -
    have p: "p \<in> set (sleeping c)" using m set_remove1_subset [of q "sleeping c"] by auto
    have "sink (p_entry p) \<noteq> sink (p_entry q)"
      using in_remove1_distinct_map [OF dsl m q] .
    with h have "headersSent (srv c) (sink (p_entry p))"
      using wake_sent [of "srv c" q "sink (p_entry p)"] by auto
    with ns p have "map_of (alarmMap (srv c)) (p_key p) = None" by (simp add: no_stale_def)
    then show ?thesis
      by (simp add: wake_alarmMap delete_as_filter map_of_filter_None)
  qed
  then show ?thesis
    unfolding st by (simp add: no_stale_def)
qed

lemma no_stale_response:
  assumes inv: "inv1 c" and fr: "fresh c res" and ns: "no_stale c p"
  shows "no_stale (step lit c (Response d res name cf)) p"
proof (cases rule: findOne_cases [of "user_table d" "\<lambda>u. username u = name"])
  case (1 e)
  then show ?thesis using ns by (simp add: logResponse_no_user no_stale_def)
next
  case 2
  then show ?thesis using ns by (simp add: logResponse_no_user no_stale_def)
next
  case (3 u)
  let ?m = "alarmMap (srv c)"
  let ?yes = "filter (of_user (user_id u)) ?m"
  have silent: "\<not> headersSent (srv c) res" using fr by (simp add: fresh_def)
  have nst: "res \<notin> (\<lambda>kv. sink (snd kv)) ` set ?m"
    using inv fr by (intro fresh_not_stored) (simp_all add: inv1_def)
  have sinv: "srv_inv (srv c)" using inv by (simp add: inv1_def)
  have dk: "distinct (map fst ?m)" using sinv by (simp add: srv_inv_def)
  note eff = logResponse_effect [OF sinv 3 silent nst, of cf]
  have "map_of (filter (\<lambda>kv. \<not> of_user (user_id u) kv) ?m) (p_key p) = None"
    if p: "p \<in> set (sleeping c)"
      and h: "headersSent (srv c) (sink (p_entry p))
              \<or> sink (p_entry p) \<in> (\<lambda>kv. sink (snd kv)) ` set ?yes \<or> sink (p_entry p) = res"
  proof -
    have "sink (p_entry p) \<noteq> res" using fr p by (auto simp add: fresh_def)
    with h consider "headersSent (srv c) (sink (p_entry p))"
      | "sink (p_entry p) \<in> (\<lambda>kv. sink (snd kv)) ` set ?yes" by blast
    then show ?thesis
    proof cases
      case 1
      with ns p have "map_of ?m (p_key p) = None" by (simp add: no_stale_def)
      then show ?thesis by (rule map_of_filter_None)
    next
      case 2
      then obtain kv where kv: "kv \<in> set ?m" "of_user (user_id u) kv" "sink (snd kv) = sink (p_entry p)"
        by auto
      from own_entry [OF inv p kv(1,3)] have e: "kv = (p_key p, p_entry p)" .
      with kv(1) dk have "map_of ?m (p_key p) = Some (p_entry p)" by simp
      from map_of_filter_distinct [OF dk this, of "\<lambda>kv. \<not> of_user (user_id u) kv"] kv(2) e
      show ?thesis by simp
    qed
  qed
  then show ?thesis
    by (auto simp add: eff no_stale_def headersSent_def image_iff)
qed

lemma no_stale_step:
  assumes "inv1 c" and "admitted c ev" and "\<not> restores lit c ev p" and "no_stale c p"
  shows "no_stale (step lit c ev) p"
proof (cases ev)
  case (Confirm tz d send res a t)
  with assms show ?thesis by (simp only: admitted.simps) (rule no_stale_confirm)
next
  case (Wake res)
  with assms show ?thesis by (simp only:) (rule no_stale_wake)
next
  case (Response d res name cf)
  with assms show ?thesis by (simp only: admitted.simps) (rule no_stale_response)
qed

lemma no_stale_run:
  "inv1 c \<Longrightarrow> valid lit c evs \<Longrightarrow> unrestored lit c evs p \<Longrightarrow> no_stale c p
     \<Longrightarrow> no_stale (run lit c evs) p"
proof (induction evs arbitrary: c)
  case Nil
  then show ?case by (simp add: run_def)
next
  case (Cons ev evs)
  have a: "admitted c ev" and v: "valid lit (step lit c ev) evs" using Cons.prems(2) by simp_all
  have r: "\<not> restores lit c ev p" and u: "unrestored lit (step lit c ev) evs p"
    using Cons.prems(3) by simp_all
  have i: "inv1 (step lit c ev)" using Cons.prems(1) a by (rule inv1_step)
  have n: "no_stale (step lit c ev) p" using Cons.prems(1) a r Cons.prems(4) by (rule no_stale_step)
  from Cons.IH [OF i v u n] show ?case by (simp only: run_Cons)
qed

lemma no_stale_boot: "no_stale boot p"
  by (simp add: no_stale_def boot_def)

lemma at_most_one:
  "distinct (map fst xs) \<Longrightarrow> length (filter (\<lambda>rr. fst rr = r) xs) \<le> Suc 0"
  by (induction xs) (auto simp add: filter_empty_conv image_iff)

text \<open>
  Claim C1, as amended. Let every request have a response object of its own, and take any
  order of requests, timers and responses. Let \<open>p\<close> be a handler suspended on its timer,
  under whose key no \<open>/confirm\<close> request has stored after the response object of \<open>p\<close> had
  replied; what happens under other keys, and under this key before that reply, is not
  restricted. Then the response object of \<open>p\<close> has at most one reply. If it has replied (a
  \<open>logResponse\<close> came first), the key is absent and the timer of \<open>p\<close> will take its no-op
  branch. If it has not, the timer of \<open>p\<close> will find the key, remove it and send the timeout
  reply, or find it absent and do nothing; it does not throw. Once the timer has run, no
  entry in the map refers to the response object of \<open>p\<close>, so that no \<open>logResponse\<close> can
  reply on it any more. And of two \<open>logResponse\<close> calls of one user in a row the second
  finds no entry and only acknowledges its own caller: the response object of \<open>p\<close> still
  has at most one reply, and it has exactly the answer of the first call when the entry
  of \<open>p\<close> was in the map and the user is its owner.
\<close>

theorem one_completion_per_entry:
  assumes "valid lit boot evs" and "p \<in> set (sleeping (run lit boot evs))"
    and "unrestored lit boot evs p"
  shows "length (filter (\<lambda>rr. fst rr = sink (p_entry p)) (sent (srv (run lit boot evs)))) \<le> 1
     \<and> (headersSent (srv (run lit boot evs)) (sink (p_entry p)) \<longrightarrow>
          map_of (alarmMap (srv (run lit boot evs))) (p_key p) = None
          \<and> confirmAlarm_wake (srv (run lit boot evs)) p = (srv (run lit boot evs), None))
     \<and> (\<not> headersSent (srv (run lit boot evs)) (sink (p_entry p))
          \<and> map_of (alarmMap (srv (run lit boot evs))) (p_key p) \<noteq> None \<longrightarrow>
          confirmAlarm_wake (srv (run lit boot evs)) p =
            ((srv (run lit boot evs))
               \<lparr>alarmMap := AList.delete (p_key p) (alarmMap (srv (run lit boot evs))),
                sent := sent (srv (run lit boot evs)) @ [(sink (p_entry p), timeout_reply (p_entry p))]\<rparr>,
             None))
     \<and> (\<not> headersSent (srv (run lit boot evs)) (sink (p_entry p))
          \<and> map_of (alarmMap (srv (run lit boot evs))) (p_key p) = None \<longrightarrow>
          confirmAlarm_wake (srv (run lit boot evs)) p = (srv (run lit boot evs), None))
     \<and> snd (confirmAlarm_wake (srv (run lit boot evs)) p) = None
     \<and> sink (p_entry p) \<notin>
          (\<lambda>kv. sink (snd kv)) ` set (alarmMap (fst (confirmAlarm_wake (srv (run lit boot evs)) p)))
     \<and> (fresh (run lit boot evs) r1 \<and> fresh (run lit boot evs) r2 \<and> r1 \<noteq> r2
          \<and> findOne (user_table d) (\<lambda>x. username x = name) = Inr (Some u) \<longrightarrow>
          logResponse d (fst (logResponse d (srv (run lit boot evs)) r1 name c1)) r2 name c2 =
            ((fst (logResponse d (srv (run lit boot evs)) r1 name c1))
               \<lparr>sent := sent (fst (logResponse d (srv (run lit boot evs)) r1 name c1))
                          @ [(r2, (200, TextBody ''Response received''))]\<rparr>, None)
          \<and> length (filter (\<lambda>rr. fst rr = sink (p_entry p))
               (sent (fst (logResponse d (fst (logResponse d (srv (run lit boot evs)) r1 name c1))
                              r2 name c2)))) \<le> 1
          \<and> (map_of (alarmMap (srv (run lit boot evs))) (p_key p) = Some (p_entry p)
               \<and> ownerUserId (p_entry p) = user_id u \<longrightarrow>
               filter (\<lambda>rr. fst rr = sink (p_entry p))
                 (sent (fst (logResponse d (fst (logResponse d (srv (run lit boot evs)) r1 name c1))
                                r2 name c2)))
               = [(sink (p_entry p), answer c1 (p_entry p))]))"
proof -
  let ?c = "run lit boot evs"
  let ?r = "sink (p_entry p)"
  have i1: "inv1 ?c" using inv1_boot assms(1) by (rule inv1_run)
  have ns: "no_stale ?c p" using inv1_boot assms(1,3) no_stale_boot by (rule no_stale_run)
  have d: "distinct (map fst (sent (srv ?c)))"
    by (rule run_distinct) (simp add: boot_def)
  have a: "length (filter (\<lambda>rr. fst rr = ?r) (sent (srv ?c))) \<le> 1"
    using at_most_one [OF d, of ?r] by simp
  have b: "map_of (alarmMap (srv ?c)) (p_key p) = None
          \<and> confirmAlarm_wake (srv ?c) p = (srv ?c, None)"
    if "headersSent (srv ?c) ?r"
    using ns that assms(2) by (simp add: no_stale_def wake_absent)
  have c: "confirmAlarm_wake (srv ?c) p =
            ((srv ?c)\<lparr>alarmMap := AList.delete (p_key p) (alarmMap (srv ?c)),
                sent := sent (srv ?c) @ [(?r, timeout_reply (p_entry p))]\<rparr>, None)"
    if "\<not> headersSent (srv ?c) ?r" "map_of (alarmMap (srv ?c)) (p_key p) \<noteq> None"
  proof -
    from that(2) obtain v where "map_of (alarmMap (srv ?c)) (p_key p) = Some v" by auto
    from wake_live [OF this that(1)] show ?thesis .
  qed
  have e: "?r \<notin> (\<lambda>kv. sink (snd kv)) ` set (alarmMap (fst (confirmAlarm_wake (srv ?c) p)))"
  proof
    assume "?r \<in> (\<lambda>kv. sink (snd kv)) ` set (alarmMap (fst (confirmAlarm_wake (srv ?c) p)))"
    then obtain kv where kv: "kv \<in> set (alarmMap (srv ?c))" "fst kv \<noteq> p_key p" "sink (snd kv) = ?r"
      by (auto simp add: wake_alarmMap delete_as_filter)
    from own_entry [OF i1 assms(2) kv(1,3)] kv(2) show False by simp
  qed
  have f: "logResponse d (fst (logResponse d (srv ?c) r1 name c1)) r2 name c2 =
            ((fst (logResponse d (srv ?c) r1 name c1))
               \<lparr>sent := sent (fst (logResponse d (srv ?c) r1 name c1))
                          @ [(r2, (200, TextBody ''Response received''))]\<rparr>, None)
          \<and> length (filter (\<lambda>rr. fst rr = ?r)
               (sent (fst (logResponse d (fst (logResponse d (srv ?c) r1 name c1)) r2 name c2)))) \<le> 1
          \<and> (map_of (alarmMap (srv ?c)) (p_key p) = Some (p_entry p)
               \<and> ownerUserId (p_entry p) = user_id u \<longrightarrow>
               filter (\<lambda>rr. fst rr = ?r)
                 (sent (fst (logResponse d (fst (logResponse d (srv ?c) r1 name c1)) r2 name c2)))
               = [(?r, answer c1 (p_entry p))])"
    if f1: "fresh ?c r1" and f2: "fresh ?c r2" and ne: "r1 \<noteq> r2"
      and user: "findOne (user_table d) (\<lambda>x. username x = name) = Inr (Some u)"
  proof -
    let ?first = "fst (logResponse d (srv ?c) r1 name c1)"
    note second = second_response_noop [OF i1 f1 f2 ne user, of c1 c2]
    have "distinct (map fst (sent ?first))"
      using d by (rule logResponse_distinct)
    then have "distinct (map fst (sent (fst (logResponse d ?first r2 name c2))))"
      by (rule logResponse_distinct)
    from at_most_one [OF this, of ?r]
    have two: "length (filter (\<lambda>rr. fst rr = ?r) (sent (fst (logResponse d ?first r2 name c2)))) \<le> 1"
      by simp
    have r2: "r2 \<noteq> ?r" using f2 assms(2) by (auto simp add: fresh_def)
    have one: "filter (\<lambda>rr. fst rr = ?r) (sent (fst (logResponse d ?first r2 name c2)))
               = [(?r, answer c1 (p_entry p))]"
      if "map_of (alarmMap (srv ?c)) (p_key p) = Some (p_entry p)" "ownerUserId (p_entry p) = user_id u"
      using response_answers_entry(2) [OF i1 f1 user that, of c1] r2
      by (simp add: second)
    from second two one show ?thesis by blast
  qed
  have g: "snd (confirmAlarm_wake (srv ?c) p) = None"
  proof (cases "map_of (alarmMap (srv ?c)) (p_key p)")
    case None
    then show ?thesis by (simp add: wake_absent)
  next
    case (Some v)
    with b have "\<not> headersSent (srv ?c) (sink (p_entry p))" by auto
    with c Some show ?thesis by simp
  qed
  from a b c e f g wake_absent [of "srv ?c" p] show ?thesis by blast
qed

text \<open>The household's run, step by step.\<close>

lemma then_response:
  "step int_str \<lparr>srv = \<lparr>alarmMap = [(key_of int_str alarm1 1700000000, kitchen)], sent = []\<rparr>,
         sleeping = [\<lparr>p_key = key_of int_str alarm1 1700000000, p_entry = kitchen, p_timer = 15000\<rparr>],
         rejections = []\<rparr>
        (Response home 21 ''ann'' (JBool True)) =
     \<lparr>srv = \<lparr>alarmMap = [],
              sent = [(11, (200, ConfirmBody (JBool True) ''Kitchen'' 2 1
                              [''Error occurred when sending notification''])),
                      (21, (200, TextBody ''Response received''))]\<rparr>,
      sleeping = [\<lparr>p_key = key_of int_str alarm1 1700000000, p_entry = kitchen, p_timer = 15000\<rparr>],
      rejections = []\<rparr>"
  by (simp add: logResponse_def find_ann send_reply_def headersSent_def received_def answer_def
      kitchen_def)

lemma then_confirm:
  "step int_str \<lparr>srv = \<lparr>alarmMap = [],
              sent = [(11, (200, ConfirmBody (JBool True) ''Kitchen'' 2 1
                              [''Error occurred when sending notification''])),
                      (21, (200, TextBody ''Response received''))]\<rparr>,
         sleeping = [\<lparr>p_key = key_of int_str alarm1 1700000000, p_entry = kitchen, p_timer = 15000\<rparr>],
         rejections = []\<rparr>
        (Confirm 0 home steady 13 ''A1'' 1700000000) =
     \<lparr>srv = \<lparr>alarmMap = [(key_of int_str alarm1 1700000000, kitchen\<lparr>sink := 13, successes := 2, failures := []\<rparr>)],
              sent = [(11, (200, ConfirmBody (JBool True) ''Kitchen'' 2 1
                              [''Error occurred when sending notification''])),
                      (21, (200, TextBody ''Response received''))]\<rparr>,
      sleeping = [\<lparr>p_key = key_of int_str alarm1 1700000000, p_entry = kitchen, p_timer = 15000\<rparr>,
                  \<lparr>p_key = key_of int_str alarm1 1700000000,
                   p_entry = kitchen\<lparr>sink := 13, successes := 2, failures := []\<rparr>, p_timer = 15000\<rparr>],
      rejections = []\<rparr>"
  by (simp add: begin_stores [OF lookup_home] stored_kitchen2 Let_def)

lemma then_wake:
  "step int_str \<lparr>srv = \<lparr>alarmMap = [(key_of int_str alarm1 1700000000, kitchen\<lparr>sink := 13, successes := 2, failures := []\<rparr>)],
              sent = [(11, (200, ConfirmBody (JBool True) ''Kitchen'' 2 1
                              [''Error occurred when sending notification''])),
                      (21, (200, TextBody ''Response received''))]\<rparr>,
         sleeping = [\<lparr>p_key = key_of int_str alarm1 1700000000, p_entry = kitchen, p_timer = 15000\<rparr>,
                  \<lparr>p_key = key_of int_str alarm1 1700000000,
                   p_entry = kitchen\<lparr>sink := 13, successes := 2, failures := []\<rparr>, p_timer = 15000\<rparr>],
         rejections = []\<rparr>
        (Wake 11) =
     \<lparr>srv = \<lparr>alarmMap = [],
              sent = [(11, (200, ConfirmBody (JBool True) ''Kitchen'' 2 1
                              [''Error occurred when sending notification''])),
                      (21, (200, TextBody ''Response received''))]\<rparr>,
      sleeping = [\<lparr>p_key = key_of int_str alarm1 1700000000,
                   p_entry = kitchen\<lparr>sink := 13, successes := 2, failures := []\<rparr>, p_timer = 15000\<rparr>],
      rejections = [ERR_HTTP_HEADERS_SENT]\<rparr>"
  by (simp add: confirmAlarm_wake_def send_reply_def headersSent_def kitchen_def Let_def)

lemma run_stale:
  "run int_str boot stale =
     \<lparr>srv = \<lparr>alarmMap = [],
              sent = [(11, (200, ConfirmBody (JBool True) ''Kitchen'' 2 1
                              [''Error occurred when sending notification''])),
                      (21, (200, TextBody ''Response received''))]\<rparr>,
      sleeping = [\<lparr>p_key = key_of int_str alarm1 1700000000,
                   p_entry = kitchen\<lparr>sink := 13, successes := 2, failures := []\<rparr>, p_timer = 15000\<rparr>],
      rejections = [ERR_HTTP_HEADERS_SENT]\<rparr>"
  unfolding stale_def
  by (simp only: run_Cons first_confirm then_response then_confirm then_wake) (simp add: run_def)

lemma valid_stale: "valid int_str boot stale"
  unfolding stale_def
  by (simp only: valid.simps admitted.simps first_confirm then_response then_confirm then_wake)
     (simp add: fresh_def headersSent_def boot_def kitchen_def)

lemma then_confirm_later:
  "step int_str \<lparr>srv = \<lparr>alarmMap = [],
              sent = [(11, (200, ConfirmBody (JBool True) ''Kitchen'' 2 1
                              [''Error occurred when sending notification''])),
                      (21, (200, TextBody ''Response received''))]\<rparr>,
         sleeping = [\<lparr>p_key = key_of int_str alarm1 1700000000, p_entry = kitchen, p_timer = 15000\<rparr>],
         rejections = []\<rparr>
        (Confirm 0 home steady 13 ''A1'' 1700000060) =
     \<lparr>srv = \<lparr>alarmMap = [(key_of int_str alarm1 1700000060, kitchen\<lparr>sink := 13, successes := 2, failures := []\<rparr>)],
              sent = [(11, (200, ConfirmBody (JBool True) ''Kitchen'' 2 1
                              [''Error occurred when sending notification''])),
                      (21, (200, TextBody ''Response received''))]\<rparr>,
      sleeping = [\<lparr>p_key = key_of int_str alarm1 1700000000, p_entry = kitchen, p_timer = 15000\<rparr>,
                  \<lparr>p_key = key_of int_str alarm1 1700000060,
                   p_entry = kitchen\<lparr>sink := 13, successes := 2, failures := []\<rparr>, p_timer = 15000\<rparr>],
      rejections = []\<rparr>"
  by (simp add: begin_stores [OF lookup_home] stored_kitchen2 Let_def)

lemma run_calm:
  "run int_str boot calm =
     \<lparr>srv = \<lparr>alarmMap = [(key_of int_str alarm1 1700000060, kitchen\<lparr>sink := 13, successes := 2, failures := []\<rparr>)],
              sent = [(11, (200, ConfirmBody (JBool True) ''Kitchen'' 2 1
                              [''Error occurred when sending notification''])),
                      (21, (200, TextBody ''Response received''))]\<rparr>,
      sleeping = [\<lparr>p_key = key_of int_str alarm1 1700000000, p_entry = kitchen, p_timer = 15000\<rparr>,
                  \<lparr>p_key = key_of int_str alarm1 1700000060,
                   p_entry = kitchen\<lparr>sink := 13, successes := 2, failures := []\<rparr>, p_timer = 15000\<rparr>],
      rejections = []\<rparr>"
  unfolding calm_def
  by (simp only: run_Cons first_confirm then_response then_confirm_later) (simp add: run_def)

lemma valid_calm: "valid int_str boot calm"
  unfolding calm_def
  by (simp only: valid.simps admitted.simps first_confirm then_response then_confirm_later)
     (simp add: fresh_def headersSent_def boot_def kitchen_def)

text \<open>
  In the run \<open>calm\<close> Ann has answered the first request, and its timer will do nothing;
  the second request, under another key, is pending, and its timer will send the timeout
  reply. If instead Ann answers twice, the first answer completes the second request and
  the second answer only gets its acknowledgement. In the run \<open>stale\<close>, where the key of
  the first request is stored again after Ann's answer, the second request meets the
  condition all the same: its entry is removed by the first request's timer, its own
  timer will find the key absent, and its response object stays silent.
\<close>

lemma unrestored_calm:
  "unrestored int_str boot calm \<lparr>p_key = key_of int_str alarm1 1700000000, p_entry = kitchen, p_timer = 15000\<rparr>"
  "unrestored int_str boot calm
     \<lparr>p_key = key_of int_str alarm1 1700000060,
      p_entry = kitchen\<lparr>sink := 13, successes := 2, failures := []\<rparr>, p_timer = 15000\<rparr>"
  unfolding calm_def
  by (simp_all only: unrestored.simps restores.simps first_confirm then_response then_confirm_later)
     (simp_all add: begin_stores [OF lookup_home] boot_def key_home key_later kitchen_def)

lemma unrestored_stale:
  "unrestored int_str boot stale
     \<lparr>p_key = key_of int_str alarm1 1700000000,
      p_entry = kitchen\<lparr>sink := 13, successes := 2, failures := []\<rparr>, p_timer = 15000\<rparr>"
  unfolding stale_def
  by (simp only: unrestored.simps restores.simps first_confirm then_response then_confirm then_wake)
     (simp add: boot_def kitchen_def)

theorem one_completion_per_entry_witness:
  "valid int_str boot calm
   \<and> \<lparr>p_key = key_of int_str alarm1 1700000000, p_entry = kitchen, p_timer = 15000\<rparr>
        \<in> set (sleeping (run int_str boot calm))
   \<and> unrestored int_str boot calm
        \<lparr>p_key = key_of int_str alarm1 1700000000, p_entry = kitchen, p_timer = 15000\<rparr>
   \<and> \<lparr>p_key = key_of int_str alarm1 1700000060,
        p_entry = kitchen\<lparr>sink := 13, successes := 2, failures := []\<rparr>, p_timer = 15000\<rparr>
        \<in> set (sleeping (run int_str boot calm))
   \<and> unrestored int_str boot calm
        \<lparr>p_key = key_of int_str alarm1 1700000060,
         p_entry = kitchen\<lparr>sink := 13, successes := 2, failures := []\<rparr>, p_timer = 15000\<rparr>
   \<and> fresh (run int_str boot calm) 22 \<and> fresh (run int_str boot calm) 23 \<and> (22::nat) \<noteq> 23
   \<and> findOne (user_table home) (\<lambda>u. username u = ''ann'') = Inr (Some \<lparr>user_id = 7, username = ''ann''\<rparr>)
   \<and> headersSent (srv (run int_str boot calm)) 11
   \<and> confirmAlarm_wake (srv (run int_str boot calm))
        \<lparr>p_key = key_of int_str alarm1 1700000000, p_entry = kitchen, p_timer = 15000\<rparr>
       = (srv (run int_str boot calm), None)
   \<and> \<not> headersSent (srv (run int_str boot calm)) 13
   \<and> confirmAlarm_wake (srv (run int_str boot calm))
        \<lparr>p_key = key_of int_str alarm1 1700000060,
         p_entry = kitchen\<lparr>sink := 13, successes := 2, failures := []\<rparr>, p_timer = 15000\<rparr>
       = (\<lparr>alarmMap = [],
           sent = [(11, (200, ConfirmBody (JBool True) ''Kitchen'' 2 1
                           [''Error occurred when sending notification''])),
                   (21, (200, TextBody ''Response received'')),
                   (13, (200, ConfirmBody (JStr ''null'') ''Kitchen'' 2 2 []))]\<rparr>, None)
   \<and> logResponse home (fst (logResponse home (srv (run int_str boot calm)) 22 ''ann'' (JBool False)))
         23 ''ann'' (JBool True) =
         (\<lparr>alarmMap = [],
           sent = [(11, (200, ConfirmBody (JBool True) ''Kitchen'' 2 1
                           [''Error occurred when sending notification''])),
                   (21, (200, TextBody ''Response received'')),
                   (13, (200, ConfirmBody (JBool False) ''Kitchen'' 2 2 [])),
                   (22, (200, TextBody ''Response received'')),
                   (23, (200, TextBody ''Response received''))]\<rparr>, None)
   \<and> filter (\<lambda>rr. fst rr = 13)
        (sent (fst (logResponse home (fst (logResponse home (srv (run int_str boot calm)) 22 ''ann'' (JBool False)))
                      23 ''ann'' (JBool True))))
       = [(13, (200, ConfirmBody (JBool False) ''Kitchen'' 2 2 []))]
   \<and> valid int_str boot stale
   \<and> \<lparr>p_key = key_of int_str alarm1 1700000000,
        p_entry = kitchen\<lparr>sink := 13, successes := 2, failures := []\<rparr>, p_timer = 15000\<rparr>
        \<in> set (sleeping (run int_str boot stale))
   \<and> unrestored int_str boot stale
        \<lparr>p_key = key_of int_str alarm1 1700000000,
         p_entry = kitchen\<lparr>sink := 13, successes := 2, failures := []\<rparr>, p_timer = 15000\<rparr>
   \<and> \<not> headersSent (srv (run int_str boot stale)) 13
   \<and> map_of (alarmMap (srv (run int_str boot stale))) (key_of int_str alarm1 1700000000) = None
   \<and> confirmAlarm_wake (srv (run int_str boot stale))
        \<lparr>p_key = key_of int_str alarm1 1700000000,
         p_entry = kitchen\<lparr>sink := 13, successes := 2, failures := []\<rparr>, p_timer = 15000\<rparr>
       = (srv (run int_str boot stale), None)"
proof -
  let ?q13 = "\<lparr>p_key = key_of int_str alarm1 1700000000,
         p_entry = kitchen\<lparr>sink := 13, successes := 2, failures := []\<rparr>, p_timer = 15000\<rparr>"
  have inq: "?q13 \<in> set (sleeping (run int_str boot stale))"
    by (simp add: run_stale)
  note iq = one_completion_per_entry [OF valid_stale inq unrestored_stale]
  have hq: "\<not> headersSent (srv (run int_str boot stale)) 13"
    and mq: "map_of (alarmMap (srv (run int_str boot stale))) (key_of int_str alarm1 1700000000) = None"
    by (simp_all add: run_stale headersSent_def)
  have sq: "sink (p_entry ?q13) = 13" by simp
  from iq hq mq sq have wq: "confirmAlarm_wake (srv (run int_str boot stale)) ?q13
       = (srv (run int_str boot stale), None)"
    by simp
  let ?p11 = "\<lparr>p_key = key_of int_str alarm1 1700000000, p_entry = kitchen, p_timer = 15000\<rparr>"
  let ?p13 = "\<lparr>p_key = key_of int_str alarm1 1700000060,
         p_entry = kitchen\<lparr>sink := 13, successes := 2, failures := []\<rparr>, p_timer = 15000\<rparr>"
  let ?c = "run int_str boot calm"
  have in11: "?p11 \<in> set (sleeping ?c)" and in13: "?p13 \<in> set (sleeping ?c)"
    by (simp_all add: run_calm)
  note i11 = one_completion_per_entry [OF valid_calm in11 unrestored_calm(1)]
  note i13 = one_completion_per_entry [OF valid_calm in13 unrestored_calm(2),
      of 22 23 home "''ann''" "\<lparr>user_id = 7, username = ''ann''\<rparr>" "JBool False" "JBool True"]
  have f: "fresh ?c 22" "fresh ?c 23"
    by (simp_all add: run_calm fresh_def headersSent_def kitchen_def)
  have n: "(22::nat) \<noteq> 23" by simp
  have h11: "headersSent (srv ?c) 11" and h13: "\<not> headersSent (srv ?c) 13"
    by (simp_all add: run_calm headersSent_def)
  have s11: "sink (p_entry ?p11) = 11" and s13: "sink (p_entry ?p13) = 13"
    by (simp_all add: kitchen_def)
  from i11 h11 s11 have w11: "confirmAlarm_wake (srv ?c) ?p11 = (srv ?c, None)"
    by simp
  have m13: "map_of (alarmMap (srv ?c)) (p_key ?p13) = Some (p_entry ?p13)"
    by (simp add: run_calm)
  from i13 h13 s13 m13
  have "confirmAlarm_wake (srv ?c) ?p13 =
      ((srv ?c)\<lparr>alarmMap := AList.delete (p_key ?p13) (alarmMap (srv ?c)),
          sent := sent (srv ?c) @ [(sink (p_entry ?p13), timeout_reply (p_entry ?p13))]\<rparr>, None)"
    by simp
  then have w13: "confirmAlarm_wake (srv ?c) ?p13 =
       (\<lparr>alarmMap = [],
           sent = [(11, (200, ConfirmBody (JBool True) ''Kitchen'' 2 1
                           [''Error occurred when sending notification''])),
                   (21, (200, TextBody ''Response received'')),
                   (13, (200, ConfirmBody (JStr ''null'') ''Kitchen'' 2 2 []))]\<rparr>, None)"
    by (simp add: run_calm timeout_reply_def kitchen_def)
  have first: "fst (logResponse home (srv ?c) 22 ''ann'' (JBool False)) =
         \<lparr>alarmMap = [],
          sent = [(11, (200, ConfirmBody (JBool True) ''Kitchen'' 2 1
                          [''Error occurred when sending notification''])),
                  (21, (200, TextBody ''Response received'')),
                  (13, (200, ConfirmBody (JBool False) ''Kitchen'' 2 2 [])),
                  (22, (200, TextBody ''Response received''))]\<rparr>"
    by (simp add: run_calm logResponse_def find_ann send_reply_def headersSent_def received_def
        answer_def kitchen_def)
  have o13: "ownerUserId (p_entry ?p13) = user_id \<lparr>user_id = 7, username = ''ann''\<rparr>"
    by (simp add: kitchen_def)
  from i13 f n find_ann
  have "logResponse home (fst (logResponse home (srv ?c) 22 ''ann'' (JBool False)))
         23 ''ann'' (JBool True) =
        ((fst (logResponse home (srv ?c) 22 ''ann'' (JBool False)))
           \<lparr>sent := sent (fst (logResponse home (srv ?c) 22 ''ann'' (JBool False)))
                      @ [(23, (200, TextBody ''Response received''))]\<rparr>, None)"
    by blast
  then have second: "logResponse home (fst (logResponse home (srv ?c) 22 ''ann'' (JBool False)))
         23 ''ann'' (JBool True) =
         (\<lparr>alarmMap = [],
           sent = [(11, (200, ConfirmBody (JBool True) ''Kitchen'' 2 1
                           [''Error occurred when sending notification''])),
                   (21, (200, TextBody ''Response received'')),
                   (13, (200, ConfirmBody (JBool False) ''Kitchen'' 2 2 [])),
                   (22, (200, TextBody ''Response received'')),
                   (23, (200, TextBody ''Response received''))]\<rparr>, None)"
    by (simp add: first)
  from i13 f n find_ann m13 o13
  have "filter (\<lambda>rr. fst rr = sink (p_entry ?p13))
        (sent (fst (logResponse home (fst (logResponse home (srv ?c) 22 ''ann'' (JBool False)))
                      23 ''ann'' (JBool True))))
       = [(sink (p_entry ?p13), answer (JBool False) (p_entry ?p13))]"
    by blast
  then have once: "filter (\<lambda>rr. fst rr = 13)
        (sent (fst (logResponse home (fst (logResponse home (srv ?c) 22 ''ann'' (JBool False)))
                      23 ''ann'' (JBool True))))
       = [(13, (200, ConfirmBody (JBool False) ''Kitchen'' 2 2 []))]"
    by (simp add: answer_def kitchen_def)
  from valid_calm in11 in13 unrestored_calm f n find_ann h11 w11 h13 w13 second once
    valid_stale inq unrestored_stale hq mq wq
  show ?thesis by (simp only: simp_thms)
qed

text \<open>
  Without the condition the claim fails. In the run \<open>stale\<close> every request has its own
  response object. Ann's answer completes the first request and removes its entry; the
  same alarm and timestamp are then confirmed again, on response object 13, while the
  first handler still sleeps. When the first handler's timer fires it finds the key
  present, so it does not take its no-op branch: it deletes the entry of request 13 and
  replies a second time on response object 11, which Express refuses by throwing. Request
  13 is left suspended with no entry and no reply.
\<close>

lemma restored_stale:
  "\<not> unrestored int_str boot stale \<lparr>p_key = key_of int_str alarm1 1700000000, p_entry = kitchen, p_timer = 15000\<rparr>"
  unfolding stale_def
  by (simp only: unrestored.simps restores.simps first_confirm then_response then_confirm then_wake)
     (simp add: begin_stores [OF lookup_home] headersSent_def kitchen_def)

theorem stale_timer_completes_twice:
  "valid int_str boot stale
   \<and> \<not> unrestored int_str boot stale
         \<lparr>p_key = key_of int_str alarm1 1700000000, p_entry = kitchen, p_timer = 15000\<rparr>
   \<and> run int_str boot (take 3 stale) =
       \<lparr>srv = \<lparr>alarmMap = [(key_of int_str alarm1 1700000000,
                              kitchen\<lparr>sink := 13, successes := 2, failures := []\<rparr>)],
                sent = [(11, (200, ConfirmBody (JBool True) ''Kitchen'' 2 1
                                [''Error occurred when sending notification''])),
                        (21, (200, TextBody ''Response received''))]\<rparr>,
        sleeping = [\<lparr>p_key = key_of int_str alarm1 1700000000, p_entry = kitchen, p_timer = 15000\<rparr>,
                    \<lparr>p_key = key_of int_str alarm1 1700000000,
                     p_entry = kitchen\<lparr>sink := 13, successes := 2, failures := []\<rparr>, p_timer = 15000\<rparr>],
        rejections = []\<rparr>
   \<and> confirmAlarm_wake (srv (run int_str boot (take 3 stale)))
        \<lparr>p_key = key_of int_str alarm1 1700000000, p_entry = kitchen, p_timer = 15000\<rparr>
       = (\<lparr>alarmMap = [],
           sent = [(11, (200, ConfirmBody (JBool True) ''Kitchen'' 2 1
                           [''Error occurred when sending notification''])),
                   (21, (200, TextBody ''Response received''))]\<rparr>, Some ERR_HTTP_HEADERS_SENT)
   \<and> rejections (run int_str boot stale) = [ERR_HTTP_HEADERS_SENT]
   \<and> alarmMap (srv (run int_str boot stale)) = []
   \<and> sleeping (run int_str boot stale) =
        [\<lparr>p_key = key_of int_str alarm1 1700000000,
          p_entry = kitchen\<lparr>sink := 13, successes := 2, failures := []\<rparr>, p_timer = 15000\<rparr>]
   \<and> \<not> headersSent (srv (run int_str boot stale)) 13"
proof -
  have three: "run int_str boot (take 3 stale) =
       \<lparr>srv = \<lparr>alarmMap = [(key_of int_str alarm1 1700000000,
                              kitchen\<lparr>sink := 13, successes := 2, failures := []\<rparr>)],
                sent = [(11, (200, ConfirmBody (JBool True) ''Kitchen'' 2 1
                                [''Error occurred when sending notification''])),
                        (21, (200, TextBody ''Response received''))]\<rparr>,
        sleeping = [\<lparr>p_key = key_of int_str alarm1 1700000000, p_entry = kitchen, p_timer = 15000\<rparr>,
                    \<lparr>p_key = key_of int_str alarm1 1700000000,
                     p_entry = kitchen\<lparr>sink := 13, successes := 2, failures := []\<rparr>, p_timer = 15000\<rparr>],
        rejections = []\<rparr>"
    unfolding stale_def
    by (simp only: take_Suc_Cons numeral_3_eq_3 take_0 run_Cons first_confirm then_response then_confirm)
       (simp add: run_def)
  have w: "confirmAlarm_wake (srv (run int_str boot (take 3 stale)))
        \<lparr>p_key = key_of int_str alarm1 1700000000, p_entry = kitchen, p_timer = 15000\<rparr>
       = (\<lparr>alarmMap = [],
           sent = [(11, (200, ConfirmBody (JBool True) ''Kitchen'' 2 1
                           [''Error occurred when sending notification''])),
                   (21, (200, TextBody ''Response received''))]\<rparr>, Some ERR_HTTP_HEADERS_SENT)"
    unfolding three
    by (simp add: confirmAlarm_wake_def send_reply_def headersSent_def kitchen_def Let_def)
  from valid_stale restored_stale three w show ?thesis
    by (simp add: run_stale headersSent_def)
qed

end
